theory Spec2Isabelle
  imports Complex_Main "HOL-Library.Sublist"
begin

section \<open>Strings\<close>

text \<open>
  A JavaScript string is a sequence of UTF-16 code units, and \<open>length\<close>, \<open>substring\<close>,
  \<open>startsWith\<close>, \<open>includes\<close> and a regular expression without the \<open>u\<close> flag all work on
  code units. A code unit is modelled by its number; \<open>js\<close> turns an ASCII literal into
  such a string.
\<close>

type_synonym code_unit = nat
type_synonym jsstring = "code_unit list"

definition js :: "string \<Rightarrow> jsstring" where
  "js s = map of_char s"

text \<open>\<open>s.startsWith(p)\<close>\<close>

fun startsWith :: "jsstring \<Rightarrow> jsstring \<Rightarrow> bool" where
  "startsWith s [] = True"
| "startsWith [] (p # ps) = False"
| "startsWith (c # cs) (p # ps) = (c = p \<and> startsWith cs ps)"

text \<open>\<open>s.includes(p)\<close>\<close>

fun js_includes :: "jsstring \<Rightarrow> jsstring \<Rightarrow> bool" where
  "js_includes [] p = (p = [])"
| "js_includes (c # cs) p = (startsWith (c # cs) p \<or> js_includes cs p)"

text \<open>
  \<open>s.substring(0, n)\<close>: an end index below zero counts as zero, one beyond the length as
  the length.
\<close>

definition substring0 :: "jsstring \<Rightarrow> int \<Rightarrow> jsstring" where
  "substring0 s n = take (nat n) s"

text \<open>
  \<open>toString()\<close> of an integral number, in the plain decimal notation that JavaScript uses
  for every magnitude below \<open>10^21\<close>.
\<close>

fun digits :: "nat \<Rightarrow> jsstring" where
  "digits n = (if n < 10 then [48 + n] else digits (n div 10) @ [48 + n mod 10])"

definition toString :: "int \<Rightarrow> jsstring" where
  "toString i = (if i < 0 then 45 # digits (nat (- i)) else digits (nat i))"

section \<open>Resource names\<close>

definition hyphen :: code_unit where
  "hyphen = 45"

text \<open>The character class \<open>[a-z0-9-]\<close>.\<close>

definition in_class :: "code_unit \<Rightarrow> bool" where
  "in_class c = ((97 \<le> c \<and> c \<le> 122) \<or> (48 \<le> c \<and> c \<le> 57) \<or> c = hyphen)"

text \<open>\<open>.replace(/[^a-z0-9-]/g, '-')\<close>\<close>

definition replace_outside_class :: "jsstring \<Rightarrow> jsstring" where
  "replace_outside_class s = map (\<lambda>c. if in_class c then c else hyphen) s"

text \<open>\<open>.replace(/-+/g, '-')\<close>: every maximal run of hyphens becomes one hyphen.\<close>

function collapse_hyphens :: "jsstring \<Rightarrow> jsstring" where
  "collapse_hyphens [] = []"
| "collapse_hyphens (c # cs) =
     (if c = hyphen then hyphen # collapse_hyphens (dropWhile (\<lambda>d. d = hyphen) cs)
      else c # collapse_hyphens cs)"
  by pat_completeness auto
termination
  by (relation "measure length") (auto simp: less_Suc_eq_le length_dropWhile_le)

text \<open>
  \<open>.replace(/^-|-$/g, '')\<close>: one hyphen at the start is removed, and then one hyphen at
  the end of what is left.
\<close>

definition trim_hyphens :: "jsstring \<Rightarrow> jsstring" where
  "trim_hyphens s =
     (let t = (case s of [] \<Rightarrow> [] | c # cs \<Rightarrow> if c = hyphen then cs else s)
      in if t \<noteq> [] \<and> last t = hyphen then butlast t else t)"

text \<open>
  \<open>sanitizeResourceName\<close>. The Unicode tables behind \<open>toLowerCase\<close> belong to the
  JavaScript engine, so the lowercasing function is a parameter;
  \<open>ascii_toLowerCase\<close> is what it does on ASCII strings.
\<close>

definition sanitizeResourceName :: "(jsstring \<Rightarrow> jsstring) \<Rightarrow> jsstring \<Rightarrow> jsstring" where
  "sanitizeResourceName toLowerCase name =
     trim_hyphens (collapse_hyphens (replace_outside_class (toLowerCase name)))"

definition ascii_toLowerCase :: "jsstring \<Rightarrow> jsstring" where
  "ascii_toLowerCase s = map (\<lambda>c. if 65 \<le> c \<and> c \<le> 90 then c + 32 else c) s"

text \<open>The shape of a sanitized name, as executable predicates.\<close>

fun no_adjacent_hyphens :: "jsstring \<Rightarrow> bool" where
  "no_adjacent_hyphens (c # d # cs) =
     ((c \<noteq> hyphen \<or> d \<noteq> hyphen) \<and> no_adjacent_hyphens (d # cs))"
| "no_adjacent_hyphens cs = True"

definition leading_hyphen :: "jsstring \<Rightarrow> bool" where
  "leading_hyphen s = (case s of [] \<Rightarrow> False | c # cs \<Rightarrow> c = hyphen)"

definition trailing_hyphen :: "jsstring \<Rightarrow> bool" where
  "trailing_hyphen s = (s \<noteq> [] \<and> last s = hyphen)"

text \<open>
  The name under which a file is uploaded (\<open>handleFileSelect\<close>, the first lines of the
  loop body), from the file's name and the two strings \<open>timestamp\<close> and
  \<open>randomSuffix\<close>.
\<close>

definition resourceName :: "(jsstring \<Rightarrow> jsstring) \<Rightarrow> jsstring \<Rightarrow> jsstring" where
  "resourceName toLowerCase fileName =
     (let r = sanitizeResourceName toLowerCase fileName in if r = [] then js ''file'' else r)"

definition maxNameLength :: "jsstring \<Rightarrow> jsstring \<Rightarrow> int" where
  "maxNameLength timestamp randomSuffix =
     40 - int (length timestamp) - int (length randomSuffix) - 2"

definition uniqueResourceName ::
  "(jsstring \<Rightarrow> jsstring) \<Rightarrow> jsstring \<Rightarrow> jsstring \<Rightarrow> jsstring \<Rightarrow> jsstring" where
  "uniqueResourceName toLowerCase fileName timestamp randomSuffix =
     substring0 (resourceName toLowerCase fileName) (maxNameLength timestamp randomSuffix)
       @ [hyphen] @ timestamp @ [hyphen] @ randomSuffix"

text \<open>
  The two strings as the loop body computes them: \<open>Date.now().toString()\<close> from the clock
  reading, and \<open>Math.floor(Math.random() * 100000).toString()\<close> from the random number.
\<close>

definition timestamp_of :: "int \<Rightarrow> jsstring" where
  "timestamp_of clock = toString clock"

definition randomSuffix_of :: "real \<Rightarrow> jsstring" where
  "randomSuffix_of random = toString \<lfloor>random * 100000\<rfloor>"

definition uploadName :: "(jsstring \<Rightarrow> jsstring) \<Rightarrow> jsstring \<Rightarrow> int \<Rightarrow> real \<Rightarrow> jsstring" where
  "uploadName toLowerCase fileName clock random =
     uniqueResourceName toLowerCase fileName (timestamp_of clock) (randomSuffix_of random)"

section \<open>The streaming consumer\<close>

text \<open>
  The loop over the response stream in \<open>handleSendMessage\<close>. A property that may be
  \<open>undefined\<close> is an \<open>option\<close>; a time is a number of milliseconds, and the
  arithmetic is that of the real numbers.
\<close>

datatype source_type = Web | File

record source =
  src_type :: source_type
  src_uri :: "jsstring option"
  src_title :: "jsstring option"

text \<open>The object under \<open>web\<close> or \<open>retrievedContext\<close> of a grounding chunk.\<close>

record grounding_ref =
  ref_uri :: "jsstring option"
  ref_title :: "jsstring option"

record grounding_chunk =
  web :: "grounding_ref option"
  retrievedContext :: "grounding_ref option"

text \<open>\<open>a || b\<close> on strings: \<open>undefined\<close> and the empty string are falsy.\<close>

definition or_else :: "jsstring option \<Rightarrow> jsstring option \<Rightarrow> jsstring option" where
  "or_else a b = (case a of None \<Rightarrow> b | Some s \<Rightarrow> if s = [] then b else Some s)"

text \<open>\<open>if (!sources.some(s => s.uri === r.uri)) sources.push({ type, uri, title })\<close>\<close>

definition add_source :: "source_type \<Rightarrow> grounding_ref \<Rightarrow> source list \<Rightarrow> source list" where
  "add_source ty r srcs =
     (if list_ex (\<lambda>s. src_uri s = ref_uri r) srcs then srcs
      else srcs @ [\<lparr>src_type = ty, src_uri = ref_uri r,
                    src_title = or_else (ref_title r) (ref_uri r)\<rparr>])"

definition add_grounding :: "source list \<Rightarrow> grounding_chunk \<Rightarrow> source list" where
  "add_grounding srcs g =
     (case web g of
        Some w \<Rightarrow> add_source Web w srcs
      | None \<Rightarrow>
         (case retrievedContext g of
            Some r \<Rightarrow> add_source File r srcs
          | None \<Rightarrow> srcs))"

text \<open>
  A chunk of the stream: when it arrived (\<open>performance.now()\<close> in the loop body), the
  \<open>text\<close> of each part of its first candidate, and the grounding chunks of that
  candidate's metadata.
\<close>

record chunk =
  arrival :: real
  parts :: "jsstring option list"
  groundingChunks :: "grounding_chunk list option"

text \<open>What the loop writes into the message that is being streamed.\<close>

record dot_message =
  msg_text :: jsstring
  msg_sources :: "source list"
  msg_charDelay :: real

record stream_state =
  totalText :: jsstring
  sources :: "source list"
  lastChunkTime :: real
  smoothedCharDelay :: real
  lastMessage :: dot_message

definition smoothingFactor :: real where
  "smoothingFactor = 0.4"

definition newText_of :: "chunk \<Rightarrow> jsstring" where
  "newText_of c = concat (map (\<lambda>p. case p of None \<Rightarrow> [] | Some t \<Rightarrow> t) (parts c))"

definition smooth :: "real \<Rightarrow> nat \<Rightarrow> real \<Rightarrow> real" where
  "smooth deltaTime deltaChars smoothed =
     (if deltaTime > 1 \<and> deltaChars > 0
      then (let charsPerSecond = (real deltaChars / deltaTime) * 1000;
                newCharDelay = 1000 / charsPerSecond
            in smoothingFactor * newCharDelay + (1 - smoothingFactor) * smoothed)
      else smoothed)"

text \<open>One iteration of \<open>for await (const chunk of stream)\<close>.\<close>

definition consume_chunk :: "stream_state \<Rightarrow> chunk \<Rightarrow> stream_state" where
  "consume_chunk st c =
     (let now = arrival c;
          newText = newText_of c;
          srcs = (case groundingChunks c of
                    None \<Rightarrow> sources st
                  | Some gs \<Rightarrow> foldl add_grounding (sources st) gs)
      in if newText = [] then st\<lparr>sources := srcs\<rparr>
         else
           (let deltaTime = now - lastChunkTime st;
                deltaChars = length newText;
                smoothed = smooth deltaTime deltaChars (smoothedCharDelay st);
                total = totalText st @ newText
            in st\<lparr>totalText := total, sources := srcs, lastChunkTime := now,
                  smoothedCharDelay := smoothed,
                  lastMessage := \<lparr>msg_text = total, msg_sources = srcs,
                                   msg_charDelay = max 0.1 smoothed\<rparr>\<rparr>))"

definition consume_stream :: "stream_state \<Rightarrow> chunk list \<Rightarrow> stream_state" where
  "consume_stream st cs = foldl consume_chunk st cs"

text \<open>
  The state before the first chunk: \<open>start\<close> is \<open>performance.now()\<close> right after the
  stream was opened, and the message is the placeholder that was appended on sending.
\<close>

definition stream_start :: "real \<Rightarrow> stream_state" where
  "stream_start start =
     \<lparr>totalText = [], sources = [], lastChunkTime = start, smoothedCharDelay = 20,
      lastMessage = \<lparr>msg_text = [], msg_sources = [], msg_charDelay = 20\<rparr>\<rparr>"

section \<open>The typewriter\<close>

text \<open>\<open>Math.max(0.1, charDelay)\<close>, the delay that \<open>animate\<close> divides by.\<close>

definition effectiveDelay :: "real \<Rightarrow> real" where
  "effectiveDelay charDelay = max 0.1 charDelay"

section \<open>Predicates and example inputs\<close>

definition sources_distinct :: "stream_state \<Rightarrow> bool" where
  "sources_distinct st =
     (distinct (map src_uri (sources st)) \<and> distinct (map src_uri (msg_sources (lastMessage st))))"

definition example_ref :: "string \<Rightarrow> string \<Rightarrow> grounding_ref" where
  "example_ref u t = \<lparr>ref_uri = Some (js u), ref_title = Some (js t)\<rparr>"

definition example_chunks :: "chunk list" where
  "example_chunks =
     [\<lparr>arrival = 50, parts = [Some (js ''ab'')],
       groundingChunks = Some [\<lparr>web = Some (example_ref ''u1'' ''A''), retrievedContext = None\<rparr>,
                               \<lparr>web = None, retrievedContext = Some (example_ref ''u1'' ''B'')\<rparr>]\<rparr>,
      \<lparr>arrival = 80, parts = [Some (js ''abc''), None],
       groundingChunks = Some [\<lparr>web = None, retrievedContext = Some (example_ref ''u2'' [])\<rparr>,
                               \<lparr>web = Some (example_ref ''u1'' ''C''), retrievedContext = None\<rparr>]\<rparr>]"

section \<open>The upload pipeline\<close>

text \<open>
  \<open>handleFileSelect\<close>. The component's state and the handler's local variables are one
  record that is passed along. An \<open>await\<close> sends a request and goes on when the backend
  has answered: the model records both in a trace, and the answer is an input, so that
  each file of a batch comes with the backend's answers to the requests that concern it.
  An answer that never comes leaves the handler waiting.
\<close>

datatype status = Uploading | Indexing | Ready | Failed

record uploaded_file =
  status :: status
  entry_name :: jsstring
  uri :: "jsstring option"
  mimeType :: "jsstring option"
  isImage :: "bool option"

text \<open>A \<open>File\<close> of the input element: \<open>file.name\<close> and \<open>file.type\<close>.\<close>

record input_file =
  file_name :: jsstring
  file_type :: jsstring

text \<open>
  What \<open>JSON.stringify\<close> does with a value: it returns a text, it returns
  \<open>undefined\<close> (for \<open>undefined\<close>, a function or a symbol), or it throws an error
  with a name and a message (a cyclic object, a \<open>BigInt\<close>).
\<close>

datatype stringified = JsonText jsstring | JsonUndefined | JsonThrows jsstring jsstring

text \<open>
  A thrown value: an \<open>Error\<close> with its \<open>name\<close> and \<open>message\<close>, or any other value
  with what \<open>JSON.stringify\<close> does with it and its string conversion.
\<close>

datatype thrown = ErrorObject jsstring jsstring | NonError stringified jsstring

text \<open>
  \<open>error instanceof Error ? error.message : JSON.stringify(error)\<close>: a string,
  \<open>undefined\<close>, or an error thrown by \<open>JSON.stringify\<close>.
\<close>

fun errorMessage :: "thrown \<Rightarrow> thrown + jsstring option" where
  "errorMessage (ErrorObject n m) = Inr (Some m)"
| "errorMessage (NonError (JsonText j) s) = Inr (Some j)"
| "errorMessage (NonError JsonUndefined s) = Inr None"
| "errorMessage (NonError (JsonThrows n m) s) = Inl (ErrorObject n m)"

text \<open>The error inside a template literal, \<open>${error}\<close>.\<close>

fun thrown_text :: "thrown \<Rightarrow> jsstring" where
  "thrown_text (ErrorObject n m) =
     (if n = [] then m else if m = [] then n else n @ js '': '' @ m)"
| "thrown_text (NonError j s) = s"

record store =
  store_name :: "jsstring option"

text \<open>The file as \<open>ai.files.upload\<close> returns it.\<close>

record uploaded =
  up_name :: "jsstring option"
  up_uri :: "jsstring option"
  up_mimeType :: "jsstring option"

record operation =
  op_done :: bool

text \<open>
  What the environment supplies while one file is processed: the clock and the random
  number that go into the upload name, and the backend's answers to the upload, to a
  store creation inside the loop, to the import, and to the polls in order. \<open>None\<close> is
  an answer that never comes, \<open>Inl\<close> a rejected promise; the polls that are not listed
  are never answered.
\<close>

record responses =
  clock :: int
  random :: real
  upload_response :: "(thrown + uploaded) option"
  create_response :: "(thrown + store) option"
  import_response :: "(thrown + operation) option"
  get_responses :: "(thrown + operation) list"

text \<open>
  The requests to the backend. A request made for a file carries the file's position in
  the batch.
\<close>

datatype request =
  CreateStore
| Upload nat jsstring
| CreateStoreFor nat
| ImportFile nat
| GetOperation nat

fun request_file :: "request \<Rightarrow> nat option" where
  "request_file CreateStore = None"
| "request_file (Upload k n) = Some k"
| "request_file (CreateStoreFor k) = Some k"
| "request_file (ImportFile k) = Some k"
| "request_file (GetOperation k) = Some k"

text \<open>
  The trace of one invocation: a request is sent, the promise of a request is settled
  (fulfilled or rejected), the loop body has finished with the file at a position (the
  \<open>continue\<close> of an image, the end of the \<open>try\<close> block or the end of the \<open>catch\<close>
  block).
\<close>

datatype event = Sent request | Settled request | Finished nat

fun sent :: "event list \<Rightarrow> request list" where
  "sent [] = []"
| "sent (Sent q # es) = q # sent es"
| "sent (Settled q # es) = sent es"
| "sent (Finished k # es) = sent es"

text \<open>The tool of the chat session that \<open>initializeChat\<close> creates.\<close>

datatype tools = GoogleSearch | FileSearch jsstring

definition initializeChat :: "jsstring option \<Rightarrow> tools" where
  "initializeChat storeName =
     (case storeName of
        None \<Rightarrow> GoogleSearch
      | Some n \<Rightarrow> if n = [] then GoogleSearch else FileSearch n)"

text \<open>
  \<open>messages\<close> holds the texts of the messages; every message that \<open>handleFileSelect\<close>
  appends has the role \<open>system\<close>. \<open>successes\<close>, \<open>failures\<close>, \<open>billingErrorFound\<close> and
  \<open>currentStore\<close> are the handler's local variables, \<open>events\<close> is the trace.
\<close>

record upload_state =
  uploadedFiles :: "jsstring \<rightharpoonup> uploaded_file"
  fileSearchStore :: "store option"
  messages :: "jsstring list"
  isApiKeySelected :: bool
  welcomeError :: "jsstring option"
  isUploading :: bool
  chat :: "tools option"
  currentStore :: "store option"
  successes :: nat
  failures :: nat
  billingErrorFound :: bool
  events :: "event list"

definition requests :: "upload_state \<Rightarrow> request list" where
  "requests st = sent (events st)"

text \<open>
  How an asynchronous step ends: it returns, it throws, or it waits for an answer that
  does not come.
\<close>

datatype outcome = Completed | Threw thrown | Pending

definition entry :: "jsstring \<Rightarrow> status \<Rightarrow> uploaded_file" where
  "entry n s = \<lparr>status = s, entry_name = n, uri = None, mimeType = None, isImage = None\<rparr>"

definition image_entry :: "jsstring \<Rightarrow> jsstring option \<Rightarrow> jsstring \<Rightarrow> uploaded_file" where
  "image_entry n u m =
     \<lparr>status = Ready, entry_name = n, uri = u, mimeType = Some m, isImage = Some True\<rparr>"

definition set_entry :: "jsstring \<Rightarrow> uploaded_file \<Rightarrow> upload_state \<Rightarrow> upload_state" where
  "set_entry n u st = st\<lparr>uploadedFiles := (uploadedFiles st)(n \<mapsto> u)\<rparr>"

definition send :: "request \<Rightarrow> upload_state \<Rightarrow> upload_state" where
  "send q st = st\<lparr>events := events st @ [Sent q]\<rparr>"

definition settle :: "request \<Rightarrow> upload_state \<Rightarrow> upload_state" where
  "settle q st = st\<lparr>events := events st @ [Settled q]\<rparr>"

definition finish :: "nat \<Rightarrow> upload_state \<Rightarrow> upload_state" where
  "finish k st = st\<lparr>events := events st @ [Finished k]\<rparr>"

definition add_message :: "jsstring \<Rightarrow> upload_state \<Rightarrow> upload_state" where
  "add_message m st = st\<lparr>messages := messages st @ [m]\<rparr>"

text \<open>\<open>!currentStore?.name\<close> is false: there is a store and its name is a non-empty string.\<close>

definition has_name :: "store option \<Rightarrow> bool" where
  "has_name s =
     (case s of
        None \<Rightarrow> False
      | Some x \<Rightarrow> (case store_name x of None \<Rightarrow> False | Some n \<Rightarrow> n \<noteq> []))"

text \<open>
  \<open>while (!operation.done) { await sleep; operation = await ai.operations.get(...) }\<close>
\<close>

fun poll :: "nat \<Rightarrow> operation \<Rightarrow> (thrown + operation) list \<Rightarrow> upload_state \<Rightarrow> upload_state \<times> outcome" where
  "poll k operation [] st =
     (if op_done operation then (st, Completed) else (send (GetOperation k) st, Pending))"
| "poll k operation (r # rs) st =
     (if op_done operation then (st, Completed)
      else
        (let st1 = settle (GetOperation k) (send (GetOperation k) st)
         in case r of
              Inl e \<Rightarrow> (st1, Threw e)
            | Inr operation' \<Rightarrow> poll k operation' rs st1))"

text \<open>The defensive store creation inside the loop.\<close>

definition ensure_store :: "nat \<Rightarrow> responses \<Rightarrow> upload_state \<Rightarrow> upload_state \<times> outcome" where
  "ensure_store k r st =
     (if has_name (currentStore st) then (st, Completed)
      else
        (let st1 = send (CreateStoreFor k) st
         in case create_response r of
              None \<Rightarrow> (st1, Pending)
            | Some (Inl e) \<Rightarrow> (settle (CreateStoreFor k) st1, Threw e)
            | Some (Inr newStore) \<Rightarrow>
                ((settle (CreateStoreFor k) st1)\<lparr>fileSearchStore := Some newStore,
                                                  currentStore := Some newStore\<rparr>, Completed)))"

text \<open>Step 2b of the loop body: import into the store and poll for completion.\<close>

definition import_document :: "nat \<Rightarrow> input_file \<Rightarrow> responses \<Rightarrow> upload_state \<Rightarrow> upload_state \<times> outcome" where
  "import_document k f r st =
     (case ensure_store k r st of
        (st1, Completed) \<Rightarrow>
          (let st2 = send (ImportFile k) (set_entry (file_name f) (entry (file_name f) Indexing) st1)
           in case import_response r of
                None \<Rightarrow> (st2, Pending)
              | Some (Inl e) \<Rightarrow> (settle (ImportFile k) st2, Threw e)
              | Some (Inr operation) \<Rightarrow>
                  (case poll k operation (get_responses r) (settle (ImportFile k) st2) of
                     (st3, Completed) \<Rightarrow>
                       ((set_entry (file_name f) (entry (file_name f) Ready) st3)
                          \<lparr>successes := successes st3 + 1\<rparr>, Completed)
                   | (st3, out) \<Rightarrow> (st3, out)))
      | (st1, out) \<Rightarrow> (st1, out))"

text \<open>
  Reading a property of \<open>undefined\<close> throws a \<open>TypeError\<close>: \<open>startsWith\<close> of a
  missing \<open>mimeType\<close>, \<open>includes\<close> of a missing message.
\<close>

definition mimeType_TypeError :: thrown where
  "mimeType_TypeError =
     ErrorObject (js ''TypeError'')
       (js ''Cannot read properties of undefined (reading 'startsWith')'')"

definition includes_TypeError :: thrown where
  "includes_TypeError =
     ErrorObject (js ''TypeError'')
       (js ''Cannot read properties of undefined (reading 'includes')'')"

text \<open>The \<open>try\<close> block of the loop body, for the file at position \<open>k\<close>.\<close>

definition try_file ::
  "(jsstring \<Rightarrow> jsstring) \<Rightarrow> nat \<Rightarrow> input_file \<Rightarrow> responses \<Rightarrow> upload_state \<Rightarrow> upload_state \<times> outcome" where
  "try_file toLowerCase k f r st =
     (let uniqueName = uploadName toLowerCase (file_name f) (clock r) (random r);
          st1 = send (Upload k uniqueName) st
      in case upload_response r of
           None \<Rightarrow> (st1, Pending)
         | Some (Inl e) \<Rightarrow> (settle (Upload k uniqueName) st1, Threw e)
         | Some (Inr uploadedFile) \<Rightarrow>
             (let st2 = settle (Upload k uniqueName) st1
              in case up_mimeType uploadedFile of
                   None \<Rightarrow> (st2, Threw mimeType_TypeError)
                 | Some m \<Rightarrow>
                     if startsWith m (js ''image/'')
                     then ((set_entry (file_name f)
                              (image_entry (file_name f) (up_uri uploadedFile) m) st2)
                             \<lparr>successes := successes st2 + 1\<rparr>, Completed)
                     else import_document k f r st2))"

definition billing_marker :: jsstring where
  "billing_marker = js ''Requested entity was not found''"

text \<open>
  The \<open>catch\<close> block of the loop body. It counts the failure, computes the message and
  calls \<open>includes\<close> on it, which throws when the message is \<open>undefined\<close>; so does
  \<open>JSON.stringify\<close> on some values. What it throws leaves the loop.
\<close>

definition catch_file :: "input_file \<Rightarrow> thrown \<Rightarrow> upload_state \<Rightarrow> upload_state \<times> outcome" where
  "catch_file f e st =
     (let st1 = st\<lparr>failures := failures st + 1\<rparr>
      in case errorMessage e of
           Inl t \<Rightarrow> (st1, Threw t)
         | Inr None \<Rightarrow> (st1, Threw includes_TypeError)
         | Inr (Some m) \<Rightarrow>
             (set_entry (file_name f) (entry (file_name f) Failed)
                (st1\<lparr>billingErrorFound :=
                       (if js_includes m billing_marker then True else billingErrorFound st1)\<rparr>),
              Completed))"

text \<open>One iteration of the loop: the \<open>try\<close> block, and the \<open>catch\<close> block if it throws.\<close>

definition process_file ::
  "(jsstring \<Rightarrow> jsstring) \<Rightarrow> nat \<Rightarrow> input_file \<Rightarrow> responses \<Rightarrow> upload_state \<Rightarrow> upload_state \<times> outcome" where
  "process_file toLowerCase k f r st =
     (case try_file toLowerCase k f r st of
        (st1, Completed) \<Rightarrow> (finish k st1, Completed)
      | (st1, Threw e) \<Rightarrow>
          (case catch_file f e st1 of
             (st2, Completed) \<Rightarrow> (finish k st2, Completed)
           | (st2, out) \<Rightarrow> (st2, out))
      | (st1, Pending) \<Rightarrow> (st1, Pending))"

text \<open>\<open>for (const file of files)\<close>, from position \<open>k\<close> on.\<close>

fun process_files ::
  "(jsstring \<Rightarrow> jsstring) \<Rightarrow> nat \<Rightarrow> (input_file \<times> responses) list \<Rightarrow> upload_state \<Rightarrow> upload_state \<times> outcome" where
  "process_files toLowerCase k [] st = (st, Completed)"
| "process_files toLowerCase k ((f, r) # frs) st =
     (case process_file toLowerCase k f r st of
        (st1, Completed) \<Rightarrow> process_files toLowerCase (Suc k) frs st1
      | (st1, out) \<Rightarrow> (st1, out))"

text \<open>
  The messages after the loop. \<open>aistudio\<close> says whether \<open>window.aistudio\<close> is there, and
  \<open>fileSearchStore0\<close> is the \<open>fileSearchStore\<close> of the render that created the handler.
\<close>

definition report_successes :: "store option \<Rightarrow> upload_state \<Rightarrow> upload_state" where
  "report_successes fileSearchStore0 st =
     (if successes st > 0 then
        (case (fileSearchStore0, currentStore st) of
           (None, Some s) \<Rightarrow>
             add_message (toString (int (successes st))
                            @ js '' file(s) processed. chat context updated.'')
               (st\<lparr>chat := Some (initializeChat (store_name s))\<rparr>)
         | _ \<Rightarrow> add_message (toString (int (successes st)) @ js '' file(s) ready.'') st)
      else st)"

definition report_failures :: "bool \<Rightarrow> upload_state \<Rightarrow> upload_state" where
  "report_failures aistudio st =
     (if failures st > 0 then
        (if billingErrorFound st then
           (let st1 = add_message (js ''upload failed. please check api key billing.'') st
            in if aistudio
               then st1\<lparr>welcomeError :=
                          Some (js ''The current API key failed. Please select a valid key.''),
                        isApiKeySelected := False\<rparr>
               else st1)
         else add_message (toString (int (failures st)) @ js '' file(s) failed.'') st)
      else st)"

text \<open>The \<open>catch\<close> block around the whole batch.\<close>

definition fail_if_uploading :: "(jsstring \<rightharpoonup> uploaded_file) \<Rightarrow> input_file \<Rightarrow> (jsstring \<rightharpoonup> uploaded_file)" where
  "fail_if_uploading newMap f =
     (case newMap (file_name f) of
        None \<Rightarrow> newMap
      | Some u \<Rightarrow>
          if status u = Uploading then newMap(file_name f \<mapsto> entry (file_name f) Failed)
          else newMap)"

definition batch_catch :: "input_file list \<Rightarrow> thrown \<Rightarrow> upload_state \<Rightarrow> upload_state" where
  "batch_catch files e st =
     (add_message (js ''process failed: '' @ thrown_text e) st)
       \<lparr>uploadedFiles := foldl fail_if_uploading (uploadedFiles st) files\<rparr>"

text \<open>
  The handler up to the loop: the flag, the first message, an \<open>uploading\<close> entry for each
  file, and the store creation when the batch has a document and there is no store.
\<close>

definition batch_start ::
  "input_file list \<Rightarrow> (thrown + store) option \<Rightarrow> upload_state \<Rightarrow> upload_state \<times> outcome" where
  "batch_start files created st =
     (let st1 = add_message (js ''uploading '' @ toString (int (length files)) @ js '' file(s)...'')
                  (st\<lparr>isUploading := True, currentStore := fileSearchStore st,
                      successes := 0, failures := 0, billingErrorFound := False,
                      events := []\<rparr>);
          st2 = st1\<lparr>uploadedFiles :=
                      foldl (\<lambda>newMap f. newMap(file_name f \<mapsto> entry (file_name f) Uploading))
                        (uploadedFiles st1) files\<rparr>;
          docFiles = filter (\<lambda>f. \<not> startsWith (file_type f) (js ''image/'')) files
      in if currentStore st2 = None \<and> docFiles \<noteq> [] then
           (let st3 = send CreateStore (add_message (js ''creating a new file collection...'') st2)
            in case created of
                 None \<Rightarrow> (st3, Pending)
               | Some (Inl e) \<Rightarrow> (settle CreateStore st3, Threw e)
               | Some (Inr newStore) \<Rightarrow>
                   ((settle CreateStore st3)\<lparr>fileSearchStore := Some newStore,
                                              currentStore := Some newStore\<rparr>, Completed))
         else (st2, Completed))"

text \<open>
  \<open>handleFileSelect\<close> on the files of the event, each with the answers for it;
  \<open>created\<close> is the answer to the store creation before the loop. What the loop or the
  store creation throws is caught by the \<open>catch\<close> block of the batch. The \<open>finally\<close>
  block runs when the handler ends; it does not end while it is \<open>Pending\<close>.
\<close>

definition handleFileSelect ::
  "(jsstring \<Rightarrow> jsstring) \<Rightarrow> bool \<Rightarrow> (input_file \<times> responses) list \<Rightarrow> (thrown + store) option
     \<Rightarrow> upload_state \<Rightarrow> upload_state \<times> outcome" where
  "handleFileSelect toLowerCase aistudio frs created st =
     (if frs = [] then (st, Completed)
      else
        (case batch_start (map fst frs) created st of
           (st1, Threw e) \<Rightarrow> ((batch_catch (map fst frs) e st1)\<lparr>isUploading := False\<rparr>, Completed)
         | (st1, Pending) \<Rightarrow> (st1, Pending)
         | (st1, Completed) \<Rightarrow>
             (case process_files toLowerCase 0 frs st1 of
                (st2, Completed) \<Rightarrow>
                  ((report_failures aistudio (report_successes (fileSearchStore st) st2))
                     \<lparr>isUploading := False\<rparr>, Completed)
              | (st2, Threw e) \<Rightarrow>
                  ((batch_catch (map fst frs) e st2)\<lparr>isUploading := False\<rparr>, Completed)
              | (st2, Pending) \<Rightarrow> (st2, Pending))))"

section \<open>Predicates on the pipeline\<close>

text \<open>
  What a stage of the loop body leaves alone (\<open>untouched\<close>), and what the whole loop
  leaves alone or only lets grow (\<open>kept\<close>).
\<close>

definition untouched :: "upload_state \<Rightarrow> upload_state \<Rightarrow> bool" where
  "untouched st st' =
     (messages st' = messages st \<and> isApiKeySelected st' = isApiKeySelected st \<and>
      welcomeError st' = welcomeError st \<and> isUploading st' = isUploading st \<and>
      chat st' = chat st \<and> failures st' = failures st \<and>
      billingErrorFound st' = billingErrorFound st)"


text \<open>The file an event of the trace belongs to.\<close>

fun event_file :: "event \<Rightarrow> nat option" where
  "event_file (Sent q) = request_file q"
| "event_file (Settled q) = request_file q"
| "event_file (Finished k) = Some k"

text \<open>
  The requests that are outstanding at the end of a trace: sent and not settled yet.
\<close>

fun await_event :: "request list \<Rightarrow> event \<Rightarrow> request list" where
  "await_event qs (Sent q) = qs @ [q]"
| "await_event qs (Settled q) = remove1 q qs"
| "await_event qs (Finished k) = qs"

definition unsettled :: "event list \<Rightarrow> request list" where
  "unsettled es = foldl await_event [] es"

text \<open>
  \<open>admit_all\<close> reads a trace and accepts it when the files are processed strictly one
  after the other. It keeps the number of files the loop has finished with, the file
  that is being processed, and the request that has been sent and not settled yet. A
  request is only sent when no other is outstanding; the store creation of the batch
  comes before every file; the upload of a file is only sent when no file is being
  processed and exactly the files before it are finished; every other request belongs to
  the file that is being processed; a promise is only settled when its request is
  outstanding; and a file is only finished when it is the one being processed and
  nothing is outstanding.
\<close>

record progress =
  finished :: nat
  current :: "nat option"
  outstanding :: "request option"

fun admit :: "progress \<Rightarrow> event \<Rightarrow> progress option" where
  "admit p (Sent CreateStore) =
     (if outstanding p = None \<and> current p = None \<and> finished p = 0
      then Some (p\<lparr>outstanding := Some CreateStore\<rparr>) else None)"
| "admit p (Sent (Upload j n)) =
     (if outstanding p = None \<and> current p = None \<and> finished p = j
      then Some (p\<lparr>current := Some j, outstanding := Some (Upload j n)\<rparr>) else None)"
| "admit p (Sent (CreateStoreFor j)) =
     (if outstanding p = None \<and> current p = Some j
      then Some (p\<lparr>outstanding := Some (CreateStoreFor j)\<rparr>) else None)"
| "admit p (Sent (ImportFile j)) =
     (if outstanding p = None \<and> current p = Some j
      then Some (p\<lparr>outstanding := Some (ImportFile j)\<rparr>) else None)"
| "admit p (Sent (GetOperation j)) =
     (if outstanding p = None \<and> current p = Some j
      then Some (p\<lparr>outstanding := Some (GetOperation j)\<rparr>) else None)"
| "admit p (Settled q) =
     (if outstanding p = Some q then Some (p\<lparr>outstanding := None\<rparr>) else None)"
| "admit p (Finished j) =
     (if outstanding p = None \<and> current p = Some j \<and> finished p = j
      then Some (p\<lparr>current := None, finished := Suc j\<rparr>) else None)"

fun admit_all :: "progress \<Rightarrow> event list \<Rightarrow> progress option" where
  "admit_all p [] = Some p"
| "admit_all p (e # es) = (case admit p e of None \<Rightarrow> None | Some p' \<Rightarrow> admit_all p' es)"

definition idle :: "nat \<Rightarrow> progress" where
  "idle k = \<lparr>finished = k, current = None, outstanding = None\<rparr>"

definition busy :: "nat \<Rightarrow> request option \<Rightarrow> progress" where
  "busy k q = \<lparr>finished = k, current = Some k, outstanding = q\<rparr>"

text \<open>
  \<open>stage k st st' out\<close>: a part of the loop body for the file at position \<open>k\<close> that
  goes from \<open>st\<close> to \<open>st'\<close> and ends with \<open>out\<close> leaves alone what \<open>untouched\<close> lists,
  only adds to the trace, and what it adds is accepted while file \<open>k\<close> is being
  processed, with nothing outstanding at the end unless it is still waiting.
\<close>

definition working :: "nat \<Rightarrow> event list \<Rightarrow> outcome \<Rightarrow> bool" where
  "working k es out =
     (case admit_all (busy k None) es of
        None \<Rightarrow> False
      | Some p \<Rightarrow> finished p = k \<and> current p = Some k \<and> (outstanding p = None \<or> out = Pending))"

definition stage :: "nat \<Rightarrow> upload_state \<Rightarrow> upload_state \<Rightarrow> outcome \<Rightarrow> bool" where
  "stage k st st' out =
     (untouched st st' \<and> prefix (events st) (events st') \<and>
      working k (drop (length (events st)) (events st')) out)"

text \<open>The messages that report the outcome of a batch.\<close>

definition failure_message :: "upload_state \<Rightarrow> jsstring" where
  "failure_message st =
     (if billingErrorFound st then js ''upload failed. please check api key billing.''
      else toString (int (failures st)) @ js '' file(s) failed.'')"

definition success_message :: "store option \<Rightarrow> upload_state \<Rightarrow> jsstring" where
  "success_message fileSearchStore0 st =
     toString (int (successes st)) @
       (if fileSearchStore0 = None \<and> currentStore st \<noteq> None
        then js '' file(s) processed. chat context updated.'' else js '' file(s) ready.'')"

text \<open>
  A state of \<open>admit_all\<close> is \<open>consistent\<close> when the file being processed is the next one
  to finish and the outstanding request belongs to it; \<open>waiting\<close> is its outstanding
  request as a list; a trace is \<open>one_at_a_time\<close> when it is accepted from the start.
\<close>

definition consistent :: "progress \<Rightarrow> bool" where
  "consistent p =
     ((case current p of None \<Rightarrow> True | Some j \<Rightarrow> j = finished p) \<and>
      (case outstanding p of None \<Rightarrow> True | Some q \<Rightarrow> request_file q = current p))"

definition waiting :: "progress \<Rightarrow> request list" where
  "waiting p = (case outstanding p of None \<Rightarrow> [] | Some q \<Rightarrow> [q])"

definition one_at_a_time :: "event list \<Rightarrow> bool" where
  "one_at_a_time es = (admit_all (idle 0) es \<noteq> None)"

section \<open>An example batch\<close>

text \<open>
  Three files: a text file whose upload is rejected with the recognised message, a
  document that is imported and is done at the second poll, and an image. There is no
  store yet, so one is created before the loop.
\<close>

definition initial_state :: upload_state where
  "initial_state =
     \<lparr>uploadedFiles = Map.empty, fileSearchStore = None, messages = [], isApiKeySelected = True,
      welcomeError = None, isUploading = False, chat = Some GoogleSearch, currentStore = None,
      successes = 0, failures = 0, billingErrorFound = False, events = []\<rparr>"

definition bad_error :: thrown where
  "bad_error = ErrorObject (js ''ApiError'') (js ''404: Requested entity was not found.'')"

definition bad_doc :: "input_file \<times> responses" where
  "bad_doc =
     (\<lparr>file_name = js ''bad.txt'', file_type = js ''text/plain''\<rparr>,
      \<lparr>clock = 1762160000000, random = 3 / 4, upload_response = Some (Inl bad_error),
       create_response = None, import_response = None, get_responses = []\<rparr>)"

definition notes_doc :: "input_file \<times> responses" where
  "notes_doc =
     (\<lparr>file_name = js ''notes.pdf'', file_type = js ''application/pdf''\<rparr>,
      \<lparr>clock = 1762160000250, random = 1 / 4,
       upload_response =
         Some (Inr \<lparr>up_name = Some (js ''files/b''), up_uri = Some (js ''https://f/b''),
                     up_mimeType = Some (js ''application/pdf'')\<rparr>),
       create_response = None, import_response = Some (Inr \<lparr>op_done = False\<rparr>),
       get_responses = [Inr \<lparr>op_done = False\<rparr>, Inr \<lparr>op_done = True\<rparr>]\<rparr>)"

definition photo_image :: "input_file \<times> responses" where
  "photo_image =
     (\<lparr>file_name = js ''photo.png'', file_type = js ''image/png''\<rparr>,
      \<lparr>clock = 1762160003500, random = 1 / 2,
       upload_response =
         Some (Inr \<lparr>up_name = Some (js ''files/a''), up_uri = Some (js ''https://f/a''),
                     up_mimeType = Some (js ''image/png'')\<rparr>),
       create_response = None, import_response = None, get_responses = []\<rparr>)"

abbreviation example_batch :: "(input_file \<times> responses) list" where
  "example_batch \<equiv> [bad_doc, notes_doc, photo_image]"

definition s1_store :: store where
  "s1_store = \<lparr>store_name = Some (js ''fileSearchStores/s1'')\<rparr>"

abbreviation bad_upload :: request where
  "bad_upload \<equiv> Upload 0 (js ''bad-txt-1762160000000-75000'')"

abbreviation notes_upload :: request where
  "notes_upload \<equiv> Upload 1 (js ''notes-pdf-1762160000250-25000'')"

abbreviation photo_upload :: request where
  "photo_upload \<equiv> Upload 2 (js ''photo-png-1762160003500-50000'')"

text \<open>
  The states the example goes through: after the start of the batch, after the failed
  upload, after its \<open>catch\<close> block, and after each of the three files.
\<close>

definition example_s0 :: upload_state where
  "example_s0 =
     initial_state\<lparr>isUploading := True,
        messages := [js ''uploading 3 file(s)...'', js ''creating a new file collection...''],
        uploadedFiles := [js ''bad.txt'' \<mapsto> entry (js ''bad.txt'') Uploading,
                          js ''notes.pdf'' \<mapsto> entry (js ''notes.pdf'') Uploading,
                          js ''photo.png'' \<mapsto> entry (js ''photo.png'') Uploading],
        events := [Sent CreateStore, Settled CreateStore],
        fileSearchStore := Some s1_store, currentStore := Some s1_store\<rparr>"

definition example_t1 :: upload_state where
  "example_t1 =
     example_s0\<lparr>events := [Sent CreateStore, Settled CreateStore,
                             Sent bad_upload, Settled bad_upload]\<rparr>"

definition example_c1 :: upload_state where
  "example_c1 =
     example_t1\<lparr>failures := 1, billingErrorFound := True,
        uploadedFiles := (uploadedFiles example_t1)(js ''bad.txt'' \<mapsto> entry (js ''bad.txt'') Failed)\<rparr>"

definition example_s1 :: upload_state where
  "example_s1 = example_c1\<lparr>events := events example_c1 @ [Finished 0]\<rparr>"

definition example_s2 :: upload_state where
  "example_s2 =
     example_s1\<lparr>successes := 1,
        events := events example_s1 @
          [Sent notes_upload, Settled notes_upload, Sent (ImportFile 1), Settled (ImportFile 1),
           Sent (GetOperation 1), Settled (GetOperation 1),
           Sent (GetOperation 1), Settled (GetOperation 1), Finished 1],
        uploadedFiles := (uploadedFiles example_s1)(js ''notes.pdf'' \<mapsto> entry (js ''notes.pdf'') Ready)\<rparr>"

definition example_s3 :: upload_state where
  "example_s3 =
     example_s2\<lparr>successes := 2,
        events := events example_s2 @ [Sent photo_upload, Settled photo_upload, Finished 2],
        uploadedFiles := (uploadedFiles example_s2)
          (js ''photo.png'' \<mapsto> image_entry (js ''photo.png'') (Some (js ''https://f/a'')) (js ''image/png''))\<rparr>"

text \<open>
  A batch of two images. The upload of the first is rejected with \<open>undefined\<close>, as
  \<open>Promise.reject()\<close> does; the second would upload.
\<close>

definition rejected_undefined :: thrown where
  "rejected_undefined = NonError JsonUndefined (js ''undefined'')"

definition broken_image :: "input_file \<times> responses" where
  "broken_image =
     (\<lparr>file_name = js ''broken.png'', file_type = js ''image/png''\<rparr>,
      \<lparr>clock = 1762160000000, random = 3 / 4, upload_response = Some (Inl rejected_undefined),
       create_response = None, import_response = None, get_responses = []\<rparr>)"

abbreviation aborted_batch :: "(input_file \<times> responses) list" where
  "aborted_batch \<equiv> [broken_image, photo_image]"

abbreviation broken_upload :: request where
  "broken_upload \<equiv> Upload 0 (js ''broken-png-1762160000000-75000'')"

definition aborted_s0 :: upload_state where
  "aborted_s0 =
     initial_state\<lparr>isUploading := True,
        messages := [js ''uploading 2 file(s)...''],
        uploadedFiles := [js ''broken.png'' \<mapsto> entry (js ''broken.png'') Uploading,
                          js ''photo.png'' \<mapsto> entry (js ''photo.png'') Uploading]\<rparr>"

definition aborted_t1 :: upload_state where
  "aborted_t1 = aborted_s0\<lparr>events := [Sent broken_upload, Settled broken_upload]\<rparr>"

definition aborted_c1 :: upload_state where
  "aborted_c1 = aborted_t1\<lparr>failures := 1\<rparr>"

definition aborted_final :: upload_state where
  "aborted_final =
     aborted_c1\<lparr>isUploading := False,
        messages := [js ''uploading 2 file(s)...'',
                     js ''process failed: TypeError: Cannot read properties of undefined (reading 'includes')''],
        uploadedFiles := [js ''broken.png'' \<mapsto> entry (js ''broken.png'') Failed,
                          js ''photo.png'' \<mapsto> entry (js ''photo.png'') Failed]\<rparr>"

text \<open>A map with an entry in each of three states, for the \<open>catch\<close> block of a batch.\<close>

definition mixed_state :: upload_state where
  "mixed_state =
     initial_state\<lparr>uploadedFiles :=
       [js ''a'' \<mapsto> entry (js ''a'') Uploading, js ''b'' \<mapsto> entry (js ''b'') Indexing,
        js ''c'' \<mapsto> entry (js ''c'') Ready]\<rparr>"

definition mixed_files :: "input_file list" where
  "mixed_files =
     [\<lparr>file_name = js ''a'', file_type = js ''text/plain''\<rparr>,
      \<lparr>file_name = js ''b'', file_type = js ''text/plain''\<rparr>,
      \<lparr>file_name = js ''c'', file_type = js ''text/plain''\<rparr>]"

section \<open>Sanitized names\<close>

lemma in_class_hyphen: "in_class hyphen"
  by (simp add: in_class_def)

lemma replace_outside_class_in_class: "list_all in_class (replace_outside_class s)"
  by (induction s) (simp_all add: replace_outside_class_def in_class_hyphen)

lemma set_collapse_hyphens: "set (collapse_hyphens s) \<subseteq> set s"
proof (induction s rule: collapse_hyphens.induct)
  case 1
  show ?case by simp
next
  case (2 c cs)
  show ?case
  proof (cases "c = hyphen")
    case True
    have "set (dropWhile (\<lambda>d. d = hyphen) cs) \<subseteq> set cs"
      by (auto dest: set_dropWhileD)
    with 2(1) [OF True] True show ?thesis by auto
  next
    case False
    with 2(2) show ?thesis by auto
  qed
qed

lemma collapse_hyphens_in_class:
  "list_all in_class s \<Longrightarrow> list_all in_class (collapse_hyphens s)"
  using set_collapse_hyphens [of s] by (auto simp: list_all_iff)

lemma collapse_hyphens_Nil: "collapse_hyphens s = [] \<longleftrightarrow> s = []"
  by (cases s) simp_all

lemma hd_collapse_hyphens: "s \<noteq> [] \<Longrightarrow> hd (collapse_hyphens s) = hd s"
  by (cases s) simp_all

lemma no_adjacent_hyphens_Cons:
  "no_adjacent_hyphens (c # s) \<longleftrightarrow>
     (s = [] \<or> ((c \<noteq> hyphen \<or> hd s \<noteq> hyphen) \<and> no_adjacent_hyphens s))"
  by (cases s) auto

lemma collapse_hyphens_no_adjacent: "no_adjacent_hyphens (collapse_hyphens s)"
proof (induction s rule: collapse_hyphens.induct)
  case 1
  show ?case by simp
next
  case (2 c cs)
  show ?case
  proof (cases "c = hyphen")
    case True
    let ?r = "dropWhile (\<lambda>d. d = hyphen) cs"
    have "?r = [] \<or> hd ?r \<noteq> hyphen"
      using hd_dropWhile [of "\<lambda>d. d = hyphen" cs] by auto
    then have "collapse_hyphens ?r = [] \<or> hd (collapse_hyphens ?r) \<noteq> hyphen"
      using collapse_hyphens_Nil [of ?r] hd_collapse_hyphens [of ?r] by metis
    with 2(1) [OF True] True show ?thesis
      by (simp add: no_adjacent_hyphens_Cons)
  next
    case False
    with 2(2) show ?thesis
      by (simp add: no_adjacent_hyphens_Cons)
  qed
qed

lemma no_adjacent_hyphens_tl: "no_adjacent_hyphens s \<Longrightarrow> no_adjacent_hyphens (tl s)"
  by (cases s) (auto simp: no_adjacent_hyphens_Cons)

lemma no_adjacent_hyphens_butlast:
  "no_adjacent_hyphens s \<Longrightarrow> no_adjacent_hyphens (butlast s)"
proof (induction s rule: no_adjacent_hyphens.induct)
  case (1 c d cs)
  then show ?case by (cases cs) auto
qed simp_all

lemma no_adjacent_hyphens_last:
  "no_adjacent_hyphens s \<Longrightarrow> butlast s \<noteq> [] \<Longrightarrow> last s = hyphen \<Longrightarrow>
     last (butlast s) \<noteq> hyphen"
proof (induction s rule: no_adjacent_hyphens.induct)
  case (1 c d cs)
  then show ?case by (cases cs) (auto split: if_splits)
qed simp_all

lemma trim_hyphens_in_class: "list_all in_class s \<Longrightarrow> list_all in_class (trim_hyphens s)"
  by (auto simp: trim_hyphens_def Let_def list_all_iff split: list.splits dest: in_set_butlastD)

lemma trim_hyphens_no_adjacent:
  "no_adjacent_hyphens s \<Longrightarrow> no_adjacent_hyphens (trim_hyphens s)"
proof -
  assume s: "no_adjacent_hyphens s"
  define t where "t = (case s of [] \<Rightarrow> [] | c # cs \<Rightarrow> if c = hyphen then cs else s)"
  have "t = s \<or> t = tl s"
    by (auto simp: t_def split: list.splits)
  with s have "no_adjacent_hyphens t"
    by (auto simp: no_adjacent_hyphens_tl)
  then show ?thesis
    unfolding trim_hyphens_def t_def [symmetric] Let_def
    by (simp add: no_adjacent_hyphens_butlast)
qed

lemma trim_hyphens_no_leading:
  "no_adjacent_hyphens s \<Longrightarrow> \<not> leading_hyphen (trim_hyphens s)"
proof -
  assume s: "no_adjacent_hyphens s"
  define t where "t = (case s of [] \<Rightarrow> [] | c # cs \<Rightarrow> if c = hyphen then cs else s)"
  have t: "\<not> leading_hyphen t"
    using s by (auto simp: t_def leading_hyphen_def no_adjacent_hyphens_Cons split: list.splits)
  have "\<not> leading_hyphen (butlast t)"
    using t by (cases t) (auto simp: leading_hyphen_def split: list.splits)
  with t show ?thesis
    unfolding trim_hyphens_def t_def [symmetric] Let_def by simp
qed

lemma trim_hyphens_no_trailing:
  "no_adjacent_hyphens s \<Longrightarrow> \<not> trailing_hyphen (trim_hyphens s)"
proof -
  assume s: "no_adjacent_hyphens s"
  define t where "t = (case s of [] \<Rightarrow> [] | c # cs \<Rightarrow> if c = hyphen then cs else s)"
  have "t = s \<or> t = tl s"
    by (auto simp: t_def split: list.splits)
  with s have "no_adjacent_hyphens t"
    by (auto simp: no_adjacent_hyphens_tl)
  then show ?thesis
    unfolding trim_hyphens_def t_def [symmetric] Let_def
    using no_adjacent_hyphens_last [of t] by (auto simp: trailing_hyphen_def)
qed

text \<open>
  C4. Whatever \<open>toLowerCase\<close> returns and whatever the input string is, the result of
  \<open>sanitizeResourceName\<close> consists of code units of \<open>[a-z0-9-]\<close> only, has no two
  hyphens in a row, and neither starts nor ends with a hyphen.
\<close>

theorem sanitizeResourceName_shape:
  "list_all in_class (sanitizeResourceName toLowerCase name) \<and>
   no_adjacent_hyphens (sanitizeResourceName toLowerCase name) \<and>
   \<not> leading_hyphen (sanitizeResourceName toLowerCase name) \<and>
   \<not> trailing_hyphen (sanitizeResourceName toLowerCase name)"
  unfolding sanitizeResourceName_def
  by (intro conjI trim_hyphens_in_class trim_hyphens_no_adjacent trim_hyphens_no_leading
      trim_hyphens_no_trailing collapse_hyphens_in_class collapse_hyphens_no_adjacent
      replace_outside_class_in_class)

lemma sanitizeResourceName_example:
  "sanitizeResourceName ascii_toLowerCase (js ''--My  File (v2).PDF--'') = js ''my-file-v2-pdf''"
  by (simp add: sanitizeResourceName_def ascii_toLowerCase_def js_def trim_hyphens_def
      replace_outside_class_def in_class_def hyphen_def)

theorem sanitizeResourceName_shape_witness:
  "sanitizeResourceName ascii_toLowerCase (js ''--My  File (v2).PDF--'') = js ''my-file-v2-pdf'' \<and>
   list_all in_class (js ''my-file-v2-pdf'') \<and>
   no_adjacent_hyphens (js ''my-file-v2-pdf'') \<and>
   \<not> leading_hyphen (js ''my-file-v2-pdf'') \<and>
   \<not> trailing_hyphen (js ''my-file-v2-pdf'')"
  using sanitizeResourceName_shape [of ascii_toLowerCase "js ''--My  File (v2).PDF--''"]
  by (simp add: sanitizeResourceName_example)

section \<open>The length of an upload name\<close>

lemma length_digits: "n < 10 ^ k \<Longrightarrow> 0 < k \<Longrightarrow> length (digits n) \<le> k"
proof (induction n arbitrary: k rule: digits.induct)
  case (1 n)
  show ?case
  proof (cases "n < 10")
    case True
    with 1(3) show ?thesis by (subst digits.simps) simp
  next
    case False
    then obtain j where k: "k = Suc j" and j: "0 < j"
      using 1(2,3) by (cases k; cases "k - 1") auto
    have "n div 10 < 10 ^ j"
      using 1(2) k by (simp add: less_mult_imp_div_less mult.commute)
    from 1(1) [OF False this j] False k show ?thesis
      by (subst digits.simps) simp
  qed
qed

lemma length_toString: "\<bar>i\<bar> < 10 ^ k \<Longrightarrow> 0 < k \<Longrightarrow> length (toString i) \<le> Suc k"
proof -
  assume a: "\<bar>i\<bar> < 10 ^ k" "0 < k"
  have "nat \<bar>i\<bar> < 10 ^ k"
    using a(1) by (simp add: nat_less_iff)
  from length_digits [OF this a(2)] show ?thesis
    by (cases "i < 0") (simp_all add: toString_def del: digits.simps)
qed

lemma length_timestamp_of: "\<bar>now\<bar> < 10 ^ 21 \<Longrightarrow> length (timestamp_of now) \<le> 22"
  using length_toString [of now 21] by (simp add: timestamp_of_def)

lemma length_randomSuffix_of:
  "0 \<le> rnd \<Longrightarrow> rnd < 1 \<Longrightarrow> length (randomSuffix_of rnd) \<le> 5"
proof -
  assume r: "0 \<le> rnd" "rnd < 1"
  have f: "0 \<le> \<lfloor>rnd * 100000\<rfloor>" "\<lfloor>rnd * 100000\<rfloor> < 10 ^ 5"
    using r by (simp_all add: floor_less_iff)
  then have "nat \<lfloor>rnd * 100000\<rfloor> < 10 ^ 5"
    by (simp only: nat_less_iff [OF f(1)] of_nat_power of_nat_numeral)
  from length_digits [OF this] f(1) show ?thesis
    by (simp add: randomSuffix_of_def toString_def del: digits.simps)
qed

lemma length_uniqueResourceName:
  "length (uniqueResourceName lc name ts rs) =
     min (length (resourceName lc name)) (nat (maxNameLength ts rs)) + length ts + length rs + 2"
  by (simp add: uniqueResourceName_def substring0_def)

lemma uniqueResourceName_length_le:
  "length ts + length rs \<le> 38 \<Longrightarrow> length (uniqueResourceName lc name ts rs) \<le> 40"
  unfolding length_uniqueResourceName maxNameLength_def by (simp add: min_def) arith

text \<open>
  The budget \<open>40 - |timestamp| - |randomSuffix| - 2\<close> bounds the base only, and
  \<open>substring\<close> reads a negative budget as zero: the bound of 40 rests on the two
  strings having at most 38 code units together.
\<close>

lemma uniqueResourceName_length_iff:
  "length (uniqueResourceName lc name ts rs) \<le> 40 \<longleftrightarrow> length ts + length rs \<le> 38"
  unfolding length_uniqueResourceName maxNameLength_def by (simp add: min_def) arith

lemma uploadName_example:
  "uploadName ascii_toLowerCase (js ''My Quarterly Report - FINAL (2).pdf'') 1762160000000 0.4242
     = js ''my-quarterly-report--1762160000000-42420''"
  by (simp add: uploadName_def uniqueResourceName_def timestamp_of_def randomSuffix_of_def
      toString_def resourceName_def sanitizeResourceName_def ascii_toLowerCase_def js_def
      trim_hyphens_def replace_outside_class_def in_class_def hyphen_def substring0_def
      maxNameLength_def)

text \<open>
  C5. For every file name, every clock reading \<open>Date.now()\<close> (a number that
  \<open>toString\<close> prints in plain decimal notation, as every time value is) and every
  \<open>Math.random()\<close> of \<open>[0, 1)\<close>, the name built for the upload (the sanitized or
  fallback base cut to the budget, a hyphen, the timestamp, a hyphen, the random suffix)
  has at most 40 code units.
\<close>

theorem uploadName_length:
  "\<bar>now\<bar> < 10 ^ 21 \<Longrightarrow> 0 \<le> rnd \<Longrightarrow> rnd < 1 \<Longrightarrow>
     length (uploadName lc name now rnd) \<le> 40"
  using length_timestamp_of [of now] length_randomSuffix_of [of rnd]
  by (simp add: uploadName_def uniqueResourceName_length_le)

theorem uploadName_length_witness:
  "\<bar>1762160000000 :: int\<bar> < 10 ^ 21 \<and> (0 :: real) \<le> 0.4242 \<and> (0.4242 :: real) < 1 \<and>
   uploadName ascii_toLowerCase (js ''My Quarterly Report - FINAL (2).pdf'') 1762160000000 0.4242
     = js ''my-quarterly-report--1762160000000-42420'' \<and>
   length (uploadName ascii_toLowerCase (js ''My Quarterly Report - FINAL (2).pdf'')
     1762160000000 0.4242) \<le> 40"
  using uploadName_length [of 1762160000000 "0.4242" ascii_toLowerCase
      "js ''My Quarterly Report - FINAL (2).pdf''"] uploadName_example
  by simp

section \<open>Citations of one response\<close>

lemma add_source_distinct:
  "distinct (map src_uri srcs) \<Longrightarrow> distinct (map src_uri (add_source ty r srcs))"
  by (auto simp: add_source_def list_ex_iff)

lemma add_grounding_distinct:
  "distinct (map src_uri srcs) \<Longrightarrow> distinct (map src_uri (add_grounding srcs g))"
  by (simp add: add_grounding_def add_source_distinct split: option.splits)

lemma foldl_add_grounding_distinct:
  "distinct (map src_uri srcs) \<Longrightarrow> distinct (map src_uri (foldl add_grounding srcs gs))"
  by (induction gs arbitrary: srcs) (simp_all add: add_grounding_distinct)

lemma consume_chunk_distinct: "sources_distinct st \<Longrightarrow> sources_distinct (consume_chunk st c)"
  by (simp add: sources_distinct_def consume_chunk_def Let_def foldl_add_grounding_distinct
      split: option.splits)

lemma consume_stream_distinct: "sources_distinct st \<Longrightarrow> sources_distinct (consume_stream st cs)"
  unfolding consume_stream_def
  by (induction cs arbitrary: st) (simp_all add: consume_chunk_distinct)

lemma stream_start_distinct: "sources_distinct (stream_start start)"
  by (simp add: sources_distinct_def stream_start_def)

lemma add_source_prefix: "prefix srcs (add_source ty r srcs)"
  by (simp add: add_source_def)

lemma add_grounding_prefix: "prefix srcs (add_grounding srcs g)"
  by (simp add: add_grounding_def add_source_prefix split: option.splits)

lemma foldl_add_grounding_prefix: "prefix srcs (foldl add_grounding srcs gs)"
proof (induction gs arbitrary: srcs)
  case Nil
  show ?case by simp
next
  case (Cons g gs)
  from add_grounding_prefix [of srcs g] Cons [of "add_grounding srcs g"] show ?case
    by (auto intro: prefix_order.order_trans)
qed

lemma consume_chunk_prefix: "prefix (sources st) (sources (consume_chunk st c))"
  by (simp add: consume_chunk_def Let_def foldl_add_grounding_prefix split: option.splits)

lemma consume_stream_prefix: "prefix (sources st) (sources (consume_stream st cs))"
  unfolding consume_stream_def
proof (induction cs arbitrary: st)
  case Nil
  show ?case by simp
next
  case (Cons c cs)
  from consume_chunk_prefix [of st c] Cons [of "consume_chunk st c"] show ?case
    by (auto intro: prefix_order.order_trans)
qed

lemma consume_stream_append:
  "consume_stream st (cs @ ds) = consume_stream (consume_stream st cs) ds"
  by (simp add: consume_stream_def)

text \<open>
  C6. After any chunks \<open>cs\<close> of one response, no two accumulated sources have the same
  uri, and neither have two sources of the message; a reference whose uri is already in
  the list leaves the list as it is; and the list after further chunks \<open>ds\<close> starts with
  the list as it was, so the first entry of a uri keeps its type and title.
\<close>

theorem sources_deduplicated:
  "distinct (map src_uri (sources (consume_stream (stream_start start) cs))) \<and>
   distinct (map src_uri (msg_sources (lastMessage (consume_stream (stream_start start) cs)))) \<and>
   (list_ex (\<lambda>s. src_uri s = ref_uri r) srcs \<longrightarrow> add_source ty r srcs = srcs) \<and>
   prefix (sources (consume_stream (stream_start start) cs))
     (sources (consume_stream (stream_start start) (cs @ ds)))"
  using consume_stream_distinct [OF stream_start_distinct, of start cs]
  by (simp add: sources_distinct_def add_source_def consume_stream_append consume_stream_prefix)

lemma example_chunks_sources:
  "sources (consume_stream (stream_start 0) example_chunks) =
     [\<lparr>src_type = Web, src_uri = Some (js ''u1''), src_title = Some (js ''A'')\<rparr>,
      \<lparr>src_type = File, src_uri = Some (js ''u2''), src_title = Some (js ''u2'')\<rparr>]"
  by (simp add: example_chunks_def example_ref_def consume_stream_def consume_chunk_def
      stream_start_def newText_of_def add_grounding_def add_source_def or_else_def js_def Let_def)

theorem sources_deduplicated_witness:
  "sources (consume_stream (stream_start 0) example_chunks) =
     [\<lparr>src_type = Web, src_uri = Some (js ''u1''), src_title = Some (js ''A'')\<rparr>,
      \<lparr>src_type = File, src_uri = Some (js ''u2''), src_title = Some (js ''u2'')\<rparr>] \<and>
   distinct (map src_uri (sources (consume_stream (stream_start 0) example_chunks))) \<and>
   list_ex (\<lambda>s. src_uri s = ref_uri (example_ref ''u1'' ''C''))
     (sources (consume_stream (stream_start 0) example_chunks)) \<and>
   add_source Web (example_ref ''u1'' ''C'') (sources (consume_stream (stream_start 0) example_chunks))
     = sources (consume_stream (stream_start 0) example_chunks)"
  using sources_deduplicated [of 0 example_chunks "example_ref ''u1'' ''C''"
      "sources (consume_stream (stream_start 0) example_chunks)" Web "[]"]
  by (simp add: example_chunks_sources example_ref_def js_def)

section \<open>The smoothed delay\<close>

lemma smooth_eq:
  "smooth deltaTime deltaChars smoothed =
     (if deltaTime > 1 \<and> deltaChars > 0
      then 0.4 * (deltaTime / real deltaChars) + 0.6 * smoothed else smoothed)"
  by (simp add: smooth_def smoothingFactor_def Let_def)

text \<open>
  C2, as amended. A chunk changes the smoothed delay only when it carries text and
  arrives more than 1 ms after \<open>lastChunkTime\<close>, the arrival of the last chunk that
  carried text (or the opening of the stream); the new value is then
  \<open>0.4 * (elapsed / characters) + 0.6 * previous\<close>. Otherwise the smoothed delay stays
  as it is. The delay written into the message on a chunk with text is the smoothed one
  clamped to at least 0.1, and the typewriter clamps the delay it is given in the same
  way.
\<close>

theorem smoothed_delay_update:
  "smoothedCharDelay (consume_chunk st c) =
     (if newText_of c \<noteq> [] \<and> arrival c - lastChunkTime st > 1
      then 0.4 * ((arrival c - lastChunkTime st) / real (length (newText_of c)))
             + 0.6 * smoothedCharDelay st
      else smoothedCharDelay st) \<and>
   lastChunkTime (consume_chunk st c) =
     (if newText_of c \<noteq> [] then arrival c else lastChunkTime st) \<and>
   msg_charDelay (lastMessage (consume_chunk st c)) =
     (if newText_of c \<noteq> [] then max 0.1 (smoothedCharDelay (consume_chunk st c))
      else msg_charDelay (lastMessage st)) \<and>
   0.1 \<le> effectiveDelay charDelay"
  by (simp add: consume_chunk_def Let_def smooth_eq effectiveDelay_def)

lemma example_chunks_delay:
  "smoothedCharDelay (consume_chunk (stream_start 0) (hd example_chunks)) = 22"
  by (simp add: example_chunks_def example_ref_def consume_chunk_def stream_start_def
      newText_of_def smooth_eq js_def Let_def)

theorem smoothed_delay_update_witness:
  "newText_of (hd example_chunks) = js ''ab'' \<and>
   arrival (hd example_chunks) - lastChunkTime (stream_start 0) = 50 \<and>
   smoothedCharDelay (consume_chunk (stream_start 0) (hd example_chunks)) = 22 \<and>
   msg_charDelay (lastMessage (consume_chunk (stream_start 0) (hd example_chunks))) = 22"
  using smoothed_delay_update [of "stream_start 0" "hd example_chunks" 20]
  by (simp add: example_chunks_def newText_of_def stream_start_def js_def)

text \<open>
  C2 as stated, on every incoming chunk: a chunk of two characters that arrives 1 ms after
  the stream was opened leaves the smoothed delay at 20, where the formula gives 12.2.
\<close>

theorem smoothed_delay_counterexample:
  "smoothedCharDelay
     (consume_chunk (stream_start 0)
        \<lparr>arrival = 1, parts = [Some (js ''ab'')], groundingChunks = None\<rparr>)
   \<noteq> 0.4 * ((1 - lastChunkTime (stream_start 0)) / real (length (js ''ab'')))
       + 0.6 * smoothedCharDelay (stream_start 0)"
  by (simp add: consume_chunk_def stream_start_def newText_of_def smooth_eq js_def Let_def)

section \<open>Traces\<close>

lemma sent_append: "sent (xs @ ys) = sent xs @ sent ys"
  by (induction xs rule: sent.induct) simp_all

lemma events_send: "events (send q st) = events st @ [Sent q]"
  by (simp add: send_def)

lemma events_settle: "events (settle q st) = events st @ [Settled q]"
  by (simp add: settle_def)

lemma events_finish: "events (finish k st) = events st @ [Finished k]"
  by (simp add: finish_def)

lemma requests_send: "requests (send q st) = requests st @ [q]"
  by (simp add: requests_def send_def sent_append)

lemma requests_settle: "requests (settle q st) = requests st"
  by (simp add: requests_def settle_def sent_append)

lemma requests_finish: "requests (finish k st) = requests st"
  by (simp add: requests_def finish_def sent_append)

lemma admit_all_append:
  "admit_all p (xs @ ys) = (case admit_all p xs of None \<Rightarrow> None | Some p' \<Rightarrow> admit_all p' ys)"
  by (induction xs arbitrary: p) (simp_all split: option.splits)

lemma progress_eq_busy:
  "finished p = k \<Longrightarrow> current p = Some k \<Longrightarrow> outstanding p = q \<Longrightarrow> p = busy k q"
  by (cases p) (simp add: busy_def)

lemma working_Nil: "working k [] out"
  by (simp add: working_def busy_def)

lemma working_append:
  "working k xs out1 \<Longrightarrow> out1 \<noteq> Pending \<Longrightarrow> working k ys out \<Longrightarrow> working k (xs @ ys) out"
proof -
  assume x: "working k xs out1" and n: "out1 \<noteq> Pending" and y: "working k ys out"
  from x n obtain p where p: "admit_all (busy k None) xs = Some p"
    "finished p = k" "current p = Some k" "outstanding p = None"
    by (auto simp: working_def split: option.splits)
  from progress_eq_busy [OF p(2,3,4)] p(1) have "admit_all (busy k None) xs = Some (busy k None)"
    by simp
  with y show ?thesis
    by (simp add: working_def admit_all_append)
qed

lemma working_await:
  "q = CreateStoreFor k \<or> q = ImportFile k \<or> q = GetOperation k \<Longrightarrow>
     working k [Sent q, Settled q] out"
  by (auto simp: working_def busy_def)

lemma working_sent:
  "q = CreateStoreFor k \<or> q = ImportFile k \<or> q = GetOperation k \<Longrightarrow>
     working k [Sent q] Pending"
  by (auto simp: working_def busy_def)

section \<open>What one file sends and leaves alone\<close>

lemma stage_refl: "stage k st st out"
  by (simp add: stage_def untouched_def working_Nil)

lemma stage_trans:
  "stage k st st1 out1 \<Longrightarrow> out1 \<noteq> Pending \<Longrightarrow> stage k st1 st2 out \<Longrightarrow> stage k st st2 out"
proof -
  assume a: "stage k st st1 out1" and n: "out1 \<noteq> Pending" and b: "stage k st1 st2 out"
  from a obtain xs where xs: "events st1 = events st @ xs" "working k xs out1"
    by (auto simp: stage_def prefix_def)
  from b obtain ys where ys: "events st2 = events st1 @ ys" "working k ys out"
    by (auto simp: stage_def prefix_def)
  from working_append [OF xs(2) n ys(2)] xs(1) ys(1) a b show ?thesis
    by (simp add: stage_def untouched_def)
qed

lemma stage_await:
  "q = CreateStoreFor k \<or> q = ImportFile k \<or> q = GetOperation k \<Longrightarrow>
     stage k st (settle q (send q st)) out"
  using working_await [of q k out]
  by (simp add: stage_def untouched_def send_def settle_def)

lemma stage_sent:
  "q = CreateStoreFor k \<or> q = ImportFile k \<or> q = GetOperation k \<Longrightarrow>
     stage k st (send q st) Pending"
  using working_sent [of q k]
  by (simp add: stage_def untouched_def send_def)

lemma stage_set_entry: "stage k st (set_entry n u st) out"
  by (simp add: stage_def untouched_def set_entry_def working_Nil)

lemma stage_successes: "stage k st (st\<lparr>successes := n\<rparr>) out"
  by (simp add: stage_def untouched_def working_Nil)

lemma stage_stores: "stage k st (st\<lparr>fileSearchStore := a, currentStore := b\<rparr>) out"
  by (simp add: stage_def untouched_def working_Nil)

lemma stage_poll:
  "stage k st (fst (poll k operation rs st)) (snd (poll k operation rs st))"
proof (induction rs arbitrary: operation st)
  case Nil
  show ?case by (simp add: stage_refl stage_sent)
next
  case (Cons r rs)
  let ?st1 = "settle (GetOperation k) (send (GetOperation k) st)"
  have s1: "stage k st ?st1 out" for out
    by (simp add: stage_await)
  show ?case
  proof (cases r)
    case (Inl e)
    then show ?thesis by (simp add: stage_refl s1 Let_def)
  next
    case (Inr operation')
    from stage_trans [OF s1 [of Completed] _ Cons [of ?st1 operation']] Inr
    show ?thesis by (simp add: stage_refl Let_def)
  qed
qed

lemma stage_ensure_store:
  "stage k st (fst (ensure_store k r st)) (snd (ensure_store k r st))"
proof -
  let ?q = "CreateStoreFor k"
  have a: "stage k st (settle ?q (send ?q st)) out" for out
    by (simp add: stage_await)
  have "stage k st ((settle ?q (send ?q st))\<lparr>fileSearchStore := a, currentStore := b\<rparr>) out"
    for a b out
    by (rule stage_trans [OF a [of Completed] _ stage_stores]) simp
  with a show ?thesis
    by (simp add: ensure_store_def Let_def stage_refl stage_sent split: option.splits sum.splits)
qed

lemma stage_import_document:
  "stage k st (fst (import_document k f r st)) (snd (import_document k f r st))"
proof -
  obtain st1 out1 where e: "ensure_store k r st = (st1, out1)"
    by (cases "ensure_store k r st")
  with stage_ensure_store [of k st r] have s1: "stage k st st1 out1" by simp
  show ?thesis
  proof (cases out1)
    case Completed
    let ?st1' = "set_entry (file_name f) (entry (file_name f) Indexing) st1"
    let ?st2 = "send (ImportFile k) ?st1'"
    let ?st2' = "settle (ImportFile k) ?st2"
    have s1': "stage k st ?st1' Completed"
      by (rule stage_trans [OF s1 _ stage_set_entry]) (simp add: Completed)
    have s2p: "stage k st ?st2 Pending"
      by (rule stage_trans [OF s1' _ stage_sent]) simp_all
    have s2: "stage k st ?st2' out" for out
      by (rule stage_trans [OF s1' _ stage_await]) simp_all
    show ?thesis
    proof (cases "import_response r")
      case None
      with e Completed s2p show ?thesis by (simp add: import_document_def Let_def)
    next
      case (Some a)
      show ?thesis
      proof (cases a)
        case (Inl e')
        with Some e Completed s2 show ?thesis by (simp add: import_document_def Let_def)
      next
        case (Inr operation)
        obtain st3 out3 where p: "poll k operation (get_responses r) ?st2' = (st3, out3)"
          by (cases "poll k operation (get_responses r) ?st2'")
        with stage_poll [of k ?st2' operation "get_responses r"] have "stage k ?st2' st3 out3"
          by simp
        from stage_trans [OF s2 [of Completed] _ this] have s3: "stage k st st3 out3" by simp
        have "stage k st3 ((set_entry (file_name f) (entry (file_name f) Ready) st3)\<lparr>successes := n\<rparr>) out"
          for n out
          by (rule stage_trans [OF stage_set_entry [of _ _ _ _ Completed] _ stage_successes]) simp
        from stage_trans [OF s3 _ this]
        have "out3 = Completed \<Longrightarrow>
          stage k st ((set_entry (file_name f) (entry (file_name f) Ready) st3)\<lparr>successes := n\<rparr>) out"
          for n out
          by simp
        with Some Inr e Completed p s3 show ?thesis
          by (cases out3) (simp_all add: import_document_def Let_def)
      qed
    qed
  next
    case (Threw e')
    with e s1 show ?thesis by (simp add: import_document_def)
  next
    case Pending
    with e s1 show ?thesis by (simp add: import_document_def)
  qed
qed


lemma stage_events:
  "stage k st st' out \<Longrightarrow> \<exists>es. events st' = events st @ es \<and> working k es out"
  by (auto simp: stage_def prefix_def)

lemma admit_upload:
  "admit_all (idle k) [Sent (Upload k n), Settled (Upload k n)] = Some (busy k None)"
  by (simp add: idle_def busy_def)

lemma admit_upload_sent:
  "admit_all (idle k) [Sent (Upload k n)] = Some (busy k (Some (Upload k n)))"
  by (simp add: idle_def busy_def)

lemma admit_finish: "admit_all (busy k None) [Finished k] = Some (idle (Suc k))"
  by (simp add: idle_def busy_def)

lemma try_file_pending:
  "upload_response r = None \<Longrightarrow>
     try_file lc k f r st =
       (send (Upload k (uploadName lc (file_name f) (clock r) (random r))) st, Pending)"
  by (simp add: try_file_def Let_def)

lemma try_file_stage:
  "stage k (settle (Upload k (uploadName lc (file_name f) (clock r) (random r)))
                (send (Upload k (uploadName lc (file_name f) (clock r) (random r))) st))
       (fst (try_file lc k f r st)) (snd (try_file lc k f r st))"
  if "upload_response r \<noteq> None"
proof -
  let ?st2 = "settle (Upload k (uploadName lc (file_name f) (clock r) (random r)))
                (send (Upload k (uploadName lc (file_name f) (clock r) (random r))) st)"
  have "stage k ?st2 ((set_entry n u ?st2)\<lparr>successes := m\<rparr>) out" for n u m out
    by (rule stage_trans [OF stage_set_entry [of _ _ _ _ Completed] _ stage_successes]) simp
  then show ?thesis
    using that stage_import_document [of k ?st2 f r]
    by (auto simp: try_file_def Let_def stage_refl split: sum.splits option.splits)
qed


lemma try_file_events:
  "\<exists>es p. events (fst (try_file lc k f r st)) = events st @ es \<and>
     admit_all (idle k) es = Some p \<and> finished p = k \<and> current p = Some k \<and>
     (outstanding p = None \<or> snd (try_file lc k f r st) = Pending)"
proof (cases "upload_response r")
  case None
  then show ?thesis
    by (simp add: try_file_pending events_send idle_def)
next
  case (Some a)
  let ?u = "Upload k (uploadName lc (file_name f) (clock r) (random r))"
  from Some have "upload_response r \<noteq> None" by simp
  from stage_events [OF try_file_stage [OF this, of k lc f st]] obtain es where
    es: "events (fst (try_file lc k f r st)) = events st @ [Sent ?u, Settled ?u] @ es"
      "working k es (snd (try_file lc k f r st))"
    by (auto simp: events_send events_settle)
  from es(2) obtain p where p: "admit_all (busy k None) es = Some p" "finished p = k"
    "current p = Some k" "outstanding p = None \<or> snd (try_file lc k f r st) = Pending"
    by (auto simp: working_def split: option.splits)
  from p(1) have "admit_all (idle k) ([Sent ?u, Settled ?u] @ es) = Some p"
    by (simp only: admit_all_append admit_upload option.case)
  with es(1) p show ?thesis by blast
qed

lemma events_catch_file: "events (fst (catch_file f e st)) = events st"
  by (simp add: catch_file_def Let_def set_entry_def split: sum.splits option.splits)

lemma catch_file_not_Pending: "snd (catch_file f e st) \<noteq> Pending"
  by (simp add: catch_file_def Let_def split: sum.splits option.splits)

lemma catch_file_handled:
  "errorMessage e = Inr (Some m) \<Longrightarrow>
     catch_file f e st =
       (set_entry (file_name f) (entry (file_name f) Failed)
          (st\<lparr>failures := failures st + 1,
              billingErrorFound :=
                (if js_includes m billing_marker then True else billingErrorFound st)\<rparr>),
        Completed)"
  by (simp add: catch_file_def Let_def)


lemma catch_file_throws:
  "snd (catch_file f e st) = Threw t \<longleftrightarrow>
     errorMessage e = Inl t \<or> (errorMessage e = Inr None \<and> t = includes_TypeError)"
  by (auto simp: catch_file_def Let_def split: sum.splits option.splits)

lemma process_file_eq:
  "process_file lc k f r st =
     (case snd (try_file lc k f r st) of
        Completed \<Rightarrow> (finish k (fst (try_file lc k f r st)), Completed)
      | Threw e \<Rightarrow>
          (case snd (catch_file f e (fst (try_file lc k f r st))) of
             Completed \<Rightarrow> (finish k (fst (catch_file f e (fst (try_file lc k f r st)))), Completed)
           | out \<Rightarrow> (fst (catch_file f e (fst (try_file lc k f r st))), out))
      | Pending \<Rightarrow> (fst (try_file lc k f r st), Pending))"
  by (simp add: process_file_def split: prod.splits outcome.splits)

lemma process_file_image:
  "upload_response r = Some (Inr up) \<Longrightarrow> up_mimeType up = Some m \<Longrightarrow>
   startsWith m (js ''image/'') \<Longrightarrow>
     process_file lc k f r st =
       (finish k
          ((set_entry (file_name f) (image_entry (file_name f) (up_uri up) m)
              (settle (Upload k (uploadName lc (file_name f) (clock r) (random r)))
                 (send (Upload k (uploadName lc (file_name f) (clock r) (random r))) st)))
             \<lparr>successes := successes st + 1\<rparr>), Completed)"
  by (simp add: process_file_def try_file_def Let_def send_def settle_def)

lemma process_file_events:
  "\<exists>es p. events (fst (process_file lc k f r st)) = events st @ es \<and>
     admit_all (idle k) es = Some p \<and>
     (if snd (process_file lc k f r st) = Completed then p = idle (Suc k)
      else finished p = k \<and> current p = Some k \<and>
           (outstanding p = None \<or> snd (process_file lc k f r st) = Pending))"
proof -
  let ?t = "try_file lc k f r st"
  from try_file_events [of lc k f r st] obtain es p where
    t: "events (fst ?t) = events st @ es" "admit_all (idle k) es = Some p"
      "finished p = k" "current p = Some k" "outstanding p = None \<or> snd ?t = Pending"
    by blast
  have fin: "admit_all (idle k) (es @ [Finished k]) = Some (idle (Suc k))"
    if "snd ?t \<noteq> Pending"
  proof -
    from that t have "p = busy k None" by (simp add: progress_eq_busy)
    with t(2) show ?thesis by (simp add: admit_all_append busy_def idle_def)
  qed
  show ?thesis
  proof (cases "snd ?t")
    case Completed
    with t(1) fin show ?thesis
      by (simp add: process_file_eq events_finish)
  next
    case Pending
    with t show ?thesis by (auto simp: process_file_eq)
  next
    case (Threw e)
    let ?c = "catch_file f e (fst ?t)"
    show ?thesis
    proof (cases "snd ?c")
      case Completed
      with Threw t(1) fin show ?thesis
        by (simp add: process_file_eq events_finish events_catch_file)
    next
      case Pending
      with catch_file_not_Pending [of f e "fst ?t"] show ?thesis by simp
    next
      case (Threw e')
      with \<open>snd ?t = Threw e\<close> t show ?thesis
        by (auto simp: process_file_eq events_catch_file)
    qed
  qed
qed

section \<open>The loop over the files\<close>

lemma process_files_Cons:
  "process_files lc k (fr # frs) st =
     (case process_file lc k (fst fr) (snd fr) st of
        (st1, Completed) \<Rightarrow> process_files lc (Suc k) frs st1
      | (st1, out) \<Rightarrow> (st1, out))"
  by (cases fr) simp

lemma process_files_append:
  "process_files lc k pre st = (st1, Completed) \<Longrightarrow>
     process_files lc k (pre @ post) st = process_files lc (k + length pre) post st1"
proof (induction pre arbitrary: k st)
  case Nil
  then show ?case by simp
next
  case (Cons fr pre)
  obtain f r where fr: "fr = (f, r)" by (cases fr)
  obtain st' out' where p: "process_file lc k f r st = (st', out')"
    by (cases "process_file lc k f r st")
  show ?case
  proof (cases out')
    case Completed
    with Cons.prems fr p have "process_files lc (Suc k) pre st' = (st1, Completed)" by simp
    from Cons.IH [OF this] fr p Completed show ?thesis by simp
  next
    case (Threw e)
    with Cons.prems fr p show ?thesis by simp
  next
    case Pending
    with Cons.prems fr p show ?thesis by simp
  qed
qed

lemma process_files_events:
  "\<exists>es p. events (fst (process_files lc k frs st)) = events st @ es \<and>
     admit_all (idle k) es = Some p \<and>
     (snd (process_files lc k frs st) = Completed \<longrightarrow> p = idle (k + length frs))"
proof (induction frs arbitrary: k st)
  case Nil
  show ?case by simp
next
  case (Cons fr frs)
  obtain f r where fr: "fr = (f, r)" by (cases fr)
  obtain st1 out1 where p: "process_file lc k f r st = (st1, out1)"
    by (cases "process_file lc k f r st")
  from process_file_events [of lc k f r st] p obtain es1 p1 where
    e1: "events st1 = events st @ es1" "admit_all (idle k) es1 = Some p1"
      "if out1 = Completed then p1 = idle (Suc k) else finished p1 = k \<and> current p1 = Some k"
    by auto
  show ?case
  proof (cases out1)
    case Completed
    from Cons [of "Suc k" st1] obtain es2 p2 where
      e2: "events (fst (process_files lc (Suc k) frs st1)) = events st1 @ es2"
        "admit_all (idle (Suc k)) es2 = Some p2"
        "snd (process_files lc (Suc k) frs st1) = Completed \<longrightarrow> p2 = idle (Suc k + length frs)"
      by blast
    from e1 e2 Completed have "admit_all (idle k) (es1 @ es2) = Some p2"
      by (simp add: admit_all_append)
    with e1(1) e2 fr p Completed show ?thesis
      by (intro exI [of _ "es1 @ es2"] exI [of _ p2]) simp
  next
    case (Threw e)
    with e1 fr p show ?thesis by auto
  next
    case Pending
    with e1 fr p show ?thesis by auto
  qed
qed









lemma failed_file_aborts:
  "process_files lc 0 pre st0 = (st1, Completed) \<Longrightarrow>
   try_file lc (length pre) f r st1 = (st2, Threw e) \<Longrightarrow>
   catch_file f e st2 = (st2', Threw t) \<Longrightarrow>
     process_files lc 0 (pre @ (f, r) # post) st0 = (st2', Threw t)"
  using process_files_append [of lc 0 pre st0 st1 "(f, r) # post"]
  by (simp add: process_file_def)

section \<open>What an accepted trace looks like\<close>

lemma consistent_idle: "consistent (idle k)"
  by (simp add: consistent_def idle_def)

lemma consistent_iff:
  "consistent p \<longleftrightarrow>
     (\<forall>j. current p = Some j \<longrightarrow> j = finished p) \<and>
     (\<forall>q. outstanding p = Some q \<longrightarrow> request_file q = current p)"
  by (simp add: consistent_def split: option.splits)

lemma admit_consistent: "consistent p \<Longrightarrow> admit p e = Some p' \<Longrightarrow> consistent p'"
  by (cases "(p, e)" rule: admit.cases) (auto simp: consistent_iff split: if_splits)

lemma admit_all_consistent: "consistent p \<Longrightarrow> admit_all p es = Some p' \<Longrightarrow> consistent p'"
proof (induction es arbitrary: p)
  case Nil
  then show ?case by simp
next
  case (Cons e es)
  from Cons.prems(2) obtain p1 where s: "admit p e = Some p1" "admit_all p1 es = Some p'"
    by (auto split: option.splits)
  from Cons.IH [OF admit_consistent [OF Cons.prems(1) s(1)] s(2)] show ?case .
qed



lemma admit_mono: "admit p e = Some p' \<Longrightarrow> finished p \<le> finished p'"
  by (cases "(p, e)" rule: admit.cases) (auto split: if_splits)

lemma admit_current_or:
  "admit p e = Some p' \<Longrightarrow> current p = Some j \<Longrightarrow>
     current p' = Some j \<or> finished p < finished p'"
  by (cases "(p, e)" rule: admit.cases) (auto split: if_splits)

lemma admit_current:
  "admit p e = Some p' \<Longrightarrow> finished p' = finished p \<Longrightarrow> current p = Some j \<Longrightarrow>
     current p' = Some j"
  using admit_current_or [of p e p' j] by simp

lemma admit_all_mono: "admit_all p es = Some p' \<Longrightarrow> finished p \<le> finished p'"
proof (induction es arbitrary: p)
  case Nil
  then show ?case by simp
next
  case (Cons e es)
  from Cons.prems obtain p1 where s: "admit p e = Some p1" "admit_all p1 es = Some p'"
    by (auto split: option.splits)
  from admit_mono [OF s(1)] Cons.IH [OF s(2)] show ?case by simp
qed

lemma admit_all_current:
  "admit_all p es = Some p' \<Longrightarrow> finished p' = finished p \<Longrightarrow> current p = Some j \<Longrightarrow>
     current p' = Some j"
proof (induction es arbitrary: p)
  case Nil
  then show ?case by simp
next
  case (Cons e es)
  from Cons.prems(1) obtain p1 where s: "admit p e = Some p1" "admit_all p1 es = Some p'"
    by (auto split: option.splits)
  from admit_mono [OF s(1)] admit_all_mono [OF s(2)] Cons.prems(2)
  have f: "finished p1 = finished p" "finished p' = finished p1" by simp_all
  from admit_current [OF s(1) f(1) Cons.prems(3)] have "current p1 = Some j" .
  from Cons.IH [OF s(2) f(2) this] show ?case .
qed

lemma admit_file:
  "consistent p \<Longrightarrow> admit p e = Some p' \<Longrightarrow> event_file e = Some i \<Longrightarrow>
     i = finished p \<and> (i < finished p' \<or> current p' = Some i)"
  by (cases "(p, e)" rule: admit.cases) (auto simp: consistent_iff split: if_splits)

lemma admit_all_files:
  "consistent p \<Longrightarrow> admit_all p es = Some p' \<Longrightarrow> e \<in> set es \<Longrightarrow> event_file e = Some i \<Longrightarrow>
     finished p \<le> i \<and> (i < finished p' \<or> current p' = Some i)"
proof (induction es arbitrary: p)
  case Nil
  then show ?case by simp
next
  case (Cons e' es)
  from Cons.prems obtain p1 where s: "admit p e' = Some p1" "admit_all p1 es = Some p'"
    by (auto split: option.splits)
  note c1 = admit_consistent [OF Cons.prems(1) s(1)]
  note m1 = admit_mono [OF s(1)]
  note m2 = admit_all_mono [OF s(2)]
  show ?case
  proof (cases "e = e'")
    case True
    from admit_file [OF Cons.prems(1) s(1)] True Cons.prems(4)
    have f: "i = finished p" "i < finished p1 \<or> current p1 = Some i" by auto
    from f(2) have "i < finished p' \<or> current p' = Some i"
    proof
      assume "i < finished p1"
      with m2 show ?thesis by simp
    next
      assume c: "current p1 = Some i"
      with c1 have i: "i = finished p1" by (simp add: consistent_iff)
      show ?thesis
      proof (cases "finished p' = finished p1")
        case True
        from admit_all_current [OF s(2) True c] show ?thesis by simp
      next
        case False
        with m2 i show ?thesis by simp
      qed
    qed
    with f(1) show ?thesis by simp
  next
    case False
    with Cons.prems(3) have "e \<in> set es" by simp
    from Cons.IH [OF c1 s(2) this Cons.prems(4)] m1 show ?thesis by simp
  qed
qed


lemma admit_waiting: "admit p e = Some p' \<Longrightarrow> await_event (waiting p) e = waiting p'"
  by (cases "(p, e)" rule: admit.cases) (auto simp: waiting_def split: if_splits)

lemma admit_all_waiting:
  "admit_all p es = Some p' \<Longrightarrow> foldl await_event (waiting p) es = waiting p'"
proof (induction es arbitrary: p)
  case Nil
  then show ?case by simp
next
  case (Cons e es)
  from Cons.prems obtain p1 where s: "admit p e = Some p1" "admit_all p1 es = Some p'"
    by (auto split: option.splits)
  from admit_waiting [OF s(1)] Cons.IH [OF s(2)] show ?case by simp
qed

lemma admit_finished:
  "admit p e = Some p' \<Longrightarrow> finished p \<le> i \<Longrightarrow> i < finished p' \<Longrightarrow> e = Finished i"
  by (cases "(p, e)" rule: admit.cases) (auto split: if_splits)

lemma admit_all_finished:
  "admit_all p es = Some p' \<Longrightarrow> finished p \<le> i \<Longrightarrow> i < finished p' \<Longrightarrow> Finished i \<in> set es"
proof (induction es arbitrary: p)
  case Nil
  then show ?case by simp
next
  case (Cons e es)
  from Cons.prems obtain p1 where s: "admit p e = Some p1" "admit_all p1 es = Some p'"
    by (auto split: option.splits)
  show ?case
  proof (cases "i < finished p1")
    case True
    from admit_finished [OF s(1) Cons.prems(2) True] show ?thesis by simp
  next
    case False
    then have "finished p1 \<le> i" by simp
    from Cons.IH [OF s(2) this Cons.prems(3)] show ?thesis by simp
  qed
qed


lemma unsettled_admitted:
  "admit_all (idle 0) es = Some p \<Longrightarrow> unsettled es = waiting p"
  using admit_all_waiting [of "idle 0" es p] by (simp add: unsettled_def waiting_def idle_def)

lemma admitted_prefix:
  "admit_all p (xs @ ys) = Some p' \<Longrightarrow> \<exists>p1. admit_all p xs = Some p1 \<and> admit_all p1 ys = Some p'"
  by (simp add: admit_all_append split: option.splits)

lemma one_outstanding:
  "one_at_a_time (xs @ ys) \<Longrightarrow> length (unsettled xs) \<le> 1"
proof -
  assume "one_at_a_time (xs @ ys)"
  then obtain p' where "admit_all (idle 0) (xs @ ys) = Some p'"
    by (auto simp: one_at_a_time_def)
  from admitted_prefix [OF this] obtain p1 where "admit_all (idle 0) xs = Some p1" by blast
  from unsettled_admitted [OF this] show ?thesis
    by (simp add: waiting_def split: option.splits)
qed

lemma upload_after_the_files_before:
  assumes "one_at_a_time (before @ Sent (Upload k n) # after)"
  shows "unsettled before = []"
    and "\<forall>i<k. Finished i \<in> set before"
    and "\<forall>e\<in>set before. \<forall>i. event_file e = Some i \<longrightarrow> i < k"
    and "\<forall>e\<in>set after. \<forall>i. event_file e = Some i \<longrightarrow> k \<le> i"
proof -
  from assms obtain p' where "admit_all (idle 0) (before @ Sent (Upload k n) # after) = Some p'"
    by (auto simp: one_at_a_time_def)
  from admitted_prefix [OF this] obtain p1 where
    b: "admit_all (idle 0) before = Some p1" and "admit_all p1 (Sent (Upload k n) # after) = Some p'"
    by blast
  then obtain p2 where u: "admit p1 (Sent (Upload k n)) = Some p2"
    and a: "admit_all p2 after = Some p'"
    by (auto split: option.splits)
  from u have p1: "outstanding p1 = None" "current p1 = None" "finished p1 = k"
    by (auto split: if_splits)
  from u have p2: "finished p2 = k"
    by (auto split: if_splits)
  note c1 = admit_all_consistent [OF consistent_idle b]
  note c2 = admit_consistent [OF c1 u]
  from unsettled_admitted [OF b] p1 show "unsettled before = []"
    by (simp add: waiting_def)
  from admit_all_finished [OF b] p1 show "\<forall>i<k. Finished i \<in> set before"
    by (simp add: idle_def)
  from admit_all_files [OF consistent_idle b] p1
  show "\<forall>e\<in>set before. \<forall>i. event_file e = Some i \<longrightarrow> i < k"
    by auto
  from admit_all_files [OF c2 a] p2
  show "\<forall>e\<in>set after. \<forall>i. event_file e = Some i \<longrightarrow> k \<le> i"
    by auto
qed

section \<open>The handler\<close>

lemma events_batch_start:
  "events (fst (batch_start files created st)) =
     (if fileSearchStore st = None \<and>
         filter (\<lambda>f. \<not> startsWith (file_type f) (js ''image/'')) files \<noteq> []
      then (case created of None \<Rightarrow> [Sent CreateStore]
            | Some c \<Rightarrow> [Sent CreateStore, Settled CreateStore])
      else [])"
  by (simp add: batch_start_def Let_def send_def settle_def add_message_def
      split: sum.splits option.splits)

lemma batch_start_Pending:
  "snd (batch_start files created st) = Pending \<longleftrightarrow>
     fileSearchStore st = None \<and>
     filter (\<lambda>f. \<not> startsWith (file_type f) (js ''image/'')) files \<noteq> [] \<and> created = None"
  by (simp add: batch_start_def Let_def send_def settle_def add_message_def
      split: sum.splits option.splits)

lemma admit_batch_start:
  "\<exists>p. admit_all (idle 0) (events (fst (batch_start files created st))) = Some p \<and>
     (snd (batch_start files created st) \<noteq> Pending \<longrightarrow> p = idle 0)"
  using batch_start_Pending [of files created st]
  by (auto simp: events_batch_start idle_def split: option.splits)

lemma events_report_successes: "events (report_successes s0 st) = events st"
  by (simp add: report_successes_def add_message_def split: option.splits)

lemma events_report_failures: "events (report_failures a st) = events st"
  by (simp add: report_failures_def add_message_def Let_def)

lemma events_batch_catch: "events (batch_catch files e st) = events st"
  by (simp add: batch_catch_def add_message_def)

lemma events_handleFileSelect:
  "frs \<noteq> [] \<Longrightarrow>
     events (fst (handleFileSelect lc a frs created st)) =
       (if snd (batch_start (map fst frs) created st) = Completed
        then events (fst (process_files lc 0 frs (fst (batch_start (map fst frs) created st))))
        else events (fst (batch_start (map fst frs) created st)))"
proof -
  assume ne: "frs \<noteq> []"
  obtain st0 out0 where b: "batch_start (map fst frs) created st = (st0, out0)"
    by (cases "batch_start (map fst frs) created st")
  show ?thesis
  proof (cases out0)
    case Completed
    obtain st2 out2 where p: "process_files lc 0 frs st0 = (st2, out2)"
      by (cases "process_files lc 0 frs st0")
    with ne b Completed show ?thesis
      by (cases out2)
        (simp_all add: handleFileSelect_def events_report_failures events_report_successes
          events_batch_catch)
  next
    case (Threw e)
    with ne b show ?thesis by (simp add: handleFileSelect_def events_batch_catch)
  next
    case Pending
    with ne b show ?thesis by (simp add: handleFileSelect_def)
  qed
qed

lemma handleFileSelect_one_at_a_time:
  "frs \<noteq> [] \<Longrightarrow> one_at_a_time (events (fst (handleFileSelect lc a frs created st)))"
proof -
  assume ne: "frs \<noteq> []"
  let ?b = "batch_start (map fst frs) created st"
  from admit_batch_start [of "map fst frs" created st] obtain p0 where
    p0: "admit_all (idle 0) (events (fst ?b)) = Some p0" "snd ?b \<noteq> Pending \<longrightarrow> p0 = idle 0"
    by blast
  show ?thesis
  proof (cases "snd ?b = Completed")
    case True
    from process_files_events [of lc 0 frs "fst ?b"] obtain es p where
      e: "events (fst (process_files lc 0 frs (fst ?b))) = events (fst ?b) @ es"
        "admit_all (idle 0) es = Some p"
      by blast
    from True p0 e(2) have "admit_all (idle 0) (events (fst ?b) @ es) = Some p"
      by (simp add: admit_all_append)
    with ne True e(1) show ?thesis
      by (simp add: events_handleFileSelect one_at_a_time_def)
  next
    case False
    with ne p0 show ?thesis
      by (simp add: events_handleFileSelect one_at_a_time_def)
  qed
qed

text \<open>
  C7. In the trace of one invocation on a batch, the requests are sent and settled one at
  a time and the files are processed in the order of the batch, each one completely
  before the next. When the upload of the file at position \<open>k\<close> is sent, no request is
  outstanding, the loop body has finished with every file before position \<open>k\<close>,
  everything that has happened for a file until then belongs to a file before \<open>k\<close>,
  and nothing that happens from then on does. At no point of the trace is more than
  one request outstanding.
\<close>

theorem uploads_strictly_sequential:
  assumes "frs \<noteq> []"
  shows "one_at_a_time (events (fst (handleFileSelect lc aistudio frs created st))) \<and>
         (\<forall>before k n after.
            events (fst (handleFileSelect lc aistudio frs created st))
              = before @ Sent (Upload k n) # after \<longrightarrow>
            unsettled before = [] \<and>
            (\<forall>i<k. Finished i \<in> set before) \<and>
            (\<forall>e\<in>set before. \<forall>i. event_file e = Some i \<longrightarrow> i < k) \<and>
            (\<forall>e\<in>set after. \<forall>i. event_file e = Some i \<longrightarrow> k \<le> i)) \<and>
         (\<forall>xs ys. events (fst (handleFileSelect lc aistudio frs created st)) = xs @ ys \<longrightarrow>
            length (unsettled xs) \<le> 1)"
proof -
  note a = handleFileSelect_one_at_a_time [OF assms, of lc aistudio created st]
  have "unsettled before = [] \<and>
      (\<forall>i<k. Finished i \<in> set before) \<and>
      (\<forall>e\<in>set before. \<forall>i. event_file e = Some i \<longrightarrow> i < k) \<and>
      (\<forall>e\<in>set after. \<forall>i. event_file e = Some i \<longrightarrow> k \<le> i)"
    if "events (fst (handleFileSelect lc aistudio frs created st)) = before @ Sent (Upload k n) # after"
    for before k n after
    using upload_after_the_files_before [of before k n after] a that by simp
  moreover have "length (unsettled xs) \<le> 1"
    if "events (fst (handleFileSelect lc aistudio frs created st)) = xs @ ys" for xs ys
    using one_outstanding [of xs ys] a that by simp
  ultimately show ?thesis using a by (intro conjI allI impI) simp_all
qed





lemma handleFileSelect_Completed:
  "batch_start (map fst frs) created st = (st0, Completed) \<Longrightarrow> frs \<noteq> [] \<Longrightarrow>
   process_files lc 0 frs st0 = (st3, Completed) \<Longrightarrow>
     handleFileSelect lc a frs created st =
       ((report_failures a (report_successes (fileSearchStore st) st3))\<lparr>isUploading := False\<rparr>,
        Completed)"
  by (simp add: handleFileSelect_def)


lemma handleFileSelect_Threw:
  "batch_start (map fst frs) created st = (st0, Completed) \<Longrightarrow> frs \<noteq> [] \<Longrightarrow>
   process_files lc 0 frs st0 = (st3, Threw e) \<Longrightarrow>
     handleFileSelect lc a frs created st =
       ((batch_catch (map fst frs) e st3)\<lparr>isUploading := False\<rparr>, Completed)"
  by (simp add: handleFileSelect_def)

lemma sent_filter:
  "sent (filter (\<lambda>e. event_file e = Some k) es) = filter (\<lambda>q. request_file q = Some k) (sent es)"
  by (induction es rule: sent.induct) simp_all

lemma requests_filter:
  "filter (\<lambda>q. request_file q = Some k) (requests st) =
     sent (filter (\<lambda>e. event_file e = Some k) (events st))"
  by (simp add: requests_def sent_filter)

lemma no_events_of_later_file:
  "admit_all (idle 0) es = Some (idle k) \<Longrightarrow> filter (\<lambda>e. event_file e = Some k) es = []"
proof -
  assume a: "admit_all (idle 0) es = Some (idle k)"
  have "event_file e \<noteq> Some k" if "e \<in> set es" for e
    using admit_all_files [OF consistent_idle a that, of k] by (auto simp: idle_def)
  then show ?thesis by (simp add: filter_empty_conv)
qed

lemma no_events_of_earlier_file:
  "admit_all (idle (Suc k)) es = Some p \<Longrightarrow> filter (\<lambda>e. event_file e = Some k) es = []"
proof -
  assume a: "admit_all (idle (Suc k)) es = Some p"
  have "event_file e \<noteq> Some k" if "e \<in> set es" for e
    using admit_all_files [OF consistent_idle a that, of k] by (auto simp: idle_def)
  then show ?thesis by (simp add: filter_empty_conv)
qed

section \<open>Images\<close>

text \<open>
  C8. When the upload of the file at position \<open>length pre\<close> returns a
  \<open>mimeType\<close> that starts with \<open>image/\<close>, the loop body does nothing but send the
  upload and take its answer, set the file's entry to \<open>ready\<close> with the remote uri, the
  mimeType and the image flag, and count a success; and in the trace of the whole batch
  the upload is the only request for this file: no store creation, no import, no poll.
\<close>

theorem image_skips_import:
  assumes "batch_start (map fst (pre @ (f, r) # post)) created st = (st0, Completed)"
    and "process_files lc 0 pre st0 = (st1, Completed)"
    and "upload_response r = Some (Inr up)"
    and "up_mimeType up = Some m"
    and "startsWith m (js ''image/'')"
  shows "process_file lc (length pre) f r st1 =
           (finish (length pre)
              ((set_entry (file_name f) (image_entry (file_name f) (up_uri up) m)
                  (settle (Upload (length pre) (uploadName lc (file_name f) (clock r) (random r)))
                     (send (Upload (length pre) (uploadName lc (file_name f) (clock r) (random r)))
                        st1)))
                 \<lparr>successes := successes st1 + 1\<rparr>), Completed) \<and>
         uploadedFiles (fst (process_file lc (length pre) f r st1)) (file_name f) =
           Some \<lparr>status = Ready, entry_name = file_name f, uri = up_uri up,
                  mimeType = Some m, isImage = Some True\<rparr> \<and>
         filter (\<lambda>q. request_file q = Some (length pre))
           (requests (fst (handleFileSelect lc aistudio (pre @ (f, r) # post) created st))) =
           [Upload (length pre) (uploadName lc (file_name f) (clock r) (random r))] \<and>
         filter (\<lambda>e. event_file e = Some (length pre))
           (events (fst (handleFileSelect lc aistudio (pre @ (f, r) # post) created st))) =
           [Sent (Upload (length pre) (uploadName lc (file_name f) (clock r) (random r))),
            Settled (Upload (length pre) (uploadName lc (file_name f) (clock r) (random r))),
            Finished (length pre)]"
proof -
  let ?k = "length pre"
  let ?frs = "pre @ (f, r) # post"
  let ?u = "Upload ?k (uploadName lc (file_name f) (clock r) (random r))"
  let ?st2 = "finish ?k
                ((set_entry (file_name f) (image_entry (file_name f) (up_uri up) m)
                    (settle ?u (send ?u st1)))\<lparr>successes := successes st1 + 1\<rparr>)"
  have pf: "process_file lc ?k f r st1 = (?st2, Completed)"
    by (rule process_file_image [OF assms(3-5)])
  have entry: "uploadedFiles ?st2 (file_name f) =
      Some \<lparr>status = Ready, entry_name = file_name f, uri = up_uri up,
             mimeType = Some m, isImage = Some True\<rparr>"
    by (simp add: set_entry_def image_entry_def finish_def)
  have e2: "events ?st2 = events st1 @ [Sent ?u, Settled ?u, Finished ?k]"
    by (simp add: set_entry_def finish_def settle_def send_def)
  from admit_batch_start [of "map fst ?frs" created st] assms(1)
  have a0: "admit_all (idle 0) (events st0) = Some (idle 0)" by simp
  from process_files_events [of lc 0 pre st0] assms(2) obtain es1 where
    n1: "events st1 = events st0 @ es1" "admit_all (idle 0) es1 = Some (idle ?k)"
    by auto
  from a0 n1 have "admit_all (idle 0) (events st1) = Some (idle ?k)"
    by (simp add: admit_all_append)
  then have f1: "filter (\<lambda>e. event_file e = Some ?k) (events st1) = []"
    by (rule no_events_of_later_file)
  from process_files_events [of lc "Suc ?k" post ?st2] obtain es2 p2 where
    n2: "events (fst (process_files lc (Suc ?k) post ?st2)) = events ?st2 @ es2"
      "admit_all (idle (Suc ?k)) es2 = Some p2"
    by blast
  from n2(2) have f2: "filter (\<lambda>e. event_file e = Some ?k) es2 = []"
    by (rule no_events_of_earlier_file)
  have "process_files lc 0 ?frs st0 = process_files lc (Suc ?k) post ?st2"
    using process_files_append [OF assms(2), of "(f, r) # post"] pf by simp
  with n2(1) e2 have "events (fst (process_files lc 0 ?frs st0)) =
      events st1 @ [Sent ?u, Settled ?u, Finished ?k] @ es2"
    by simp
  moreover have "events (fst (handleFileSelect lc aistudio ?frs created st)) =
      events (fst (process_files lc 0 ?frs st0))"
    using events_handleFileSelect [of ?frs lc aistudio created st] assms(1) by simp
  ultimately have ev: "filter (\<lambda>e. event_file e = Some ?k)
      (events (fst (handleFileSelect lc aistudio ?frs created st))) =
      [Sent ?u, Settled ?u, Finished ?k]"
    using f1 f2 by simp
  then have "filter (\<lambda>q. request_file q = Some ?k)
      (requests (fst (handleFileSelect lc aistudio ?frs created st))) = [?u]"
    by (simp add: requests_filter)
  with ev pf entry show ?thesis by simp
qed

section \<open>The recognised error\<close>


section \<open>The catch block of the batch\<close>

lemma fail_if_uploading_apply:
  "fail_if_uploading m f k =
     (case m k of
        None \<Rightarrow> None
      | Some u \<Rightarrow> if status u = Uploading \<and> k = file_name f then Some (entry k Failed) else Some u)"
  by (auto simp: fail_if_uploading_def split: option.splits)

lemma foldl_fail_if_uploading:
  "foldl fail_if_uploading m files k =
     (case m k of
        None \<Rightarrow> None
      | Some u \<Rightarrow>
          if status u = Uploading \<and> k \<in> set (map file_name files) then Some (entry k Failed)
          else Some u)"
proof (induction files arbitrary: m)
  case Nil
  show ?case by (simp split: option.splits)
next
  case (Cons f files)
  show ?case
    unfolding foldl_Cons Cons [of "fail_if_uploading m f"] fail_if_uploading_apply [of m f k]
    by (auto simp: entry_def split: option.splits)
qed

text \<open>
  C10. The \<open>catch\<close> block around the batch changes an entry of the map only if its
  status is \<open>uploading\<close> (and its key is the name of a file of the batch), and it
  changes it to \<open>failed\<close>; an entry with any other status stays as it is.
\<close>

theorem batch_catch_only_uploading:
  "uploadedFiles (batch_catch files e st) k =
     (case uploadedFiles st k of
        None \<Rightarrow> None
      | Some u \<Rightarrow>
          if status u = Uploading \<and> k \<in> set (map file_name files) then Some (entry k Failed)
          else Some u) \<and>
   (uploadedFiles st k = Some u \<and> status u \<noteq> Uploading \<longrightarrow>
      uploadedFiles (batch_catch files e st) k = Some u) \<and>
   (uploadedFiles (batch_catch files e st) k \<noteq> uploadedFiles st k \<longrightarrow>
      (case uploadedFiles st k of None \<Rightarrow> False | Some u \<Rightarrow> status u = Uploading) \<and>
      uploadedFiles (batch_catch files e st) k = Some (entry k Failed))"
  by (simp add: batch_catch_def add_message_def foldl_fail_if_uploading split: option.splits)

section \<open>The example batch, step by step\<close>

lemma bad_message: "js_includes (js ''404: Requested entity was not found.'') billing_marker"
  by (simp add: js_def billing_marker_def)

lemma image_png: "startsWith (js ''image/png'') (js ''image/'')"
  by (simp add: js_def)

lemma not_image_pdf: "\<not> startsWith (js ''application/pdf'') (js ''image/'')"
  by (simp add: js_def)

lemma not_image_txt: "\<not> startsWith (js ''text/plain'') (js ''image/'')"
  by (simp add: js_def)

lemma bad_name:
  "uploadName ascii_toLowerCase (js ''bad.txt'') 1762160000000 (3 / 4) = js ''bad-txt-1762160000000-75000''"
  apply (simp add: uploadName_def uniqueResourceName_def)
  apply (simp add: timestamp_of_def randomSuffix_of_def toString_def)
  apply (simp add: resourceName_def sanitizeResourceName_def ascii_toLowerCase_def
      trim_hyphens_def replace_outside_class_def in_class_def hyphen_def substring0_def
      maxNameLength_def js_def)
  done

lemma notes_name:
  "uploadName ascii_toLowerCase (js ''notes.pdf'') 1762160000250 (1 / 4) = js ''notes-pdf-1762160000250-25000''"
  apply (simp add: uploadName_def uniqueResourceName_def)
  apply (simp add: timestamp_of_def randomSuffix_of_def toString_def)
  apply (simp add: resourceName_def sanitizeResourceName_def ascii_toLowerCase_def
      trim_hyphens_def replace_outside_class_def in_class_def hyphen_def substring0_def
      maxNameLength_def js_def)
  done

lemma photo_name:
  "uploadName ascii_toLowerCase (js ''photo.png'') 1762160003500 (1 / 2) = js ''photo-png-1762160003500-50000''"
  apply (simp add: uploadName_def uniqueResourceName_def)
  apply (simp add: timestamp_of_def randomSuffix_of_def toString_def)
  apply (simp add: resourceName_def sanitizeResourceName_def ascii_toLowerCase_def
      trim_hyphens_def replace_outside_class_def in_class_def hyphen_def substring0_def
      maxNameLength_def js_def)
  done

lemma broken_name:
  "uploadName ascii_toLowerCase (js ''broken.png'') 1762160000000 (3 / 4) = js ''broken-png-1762160000000-75000''"
  apply (simp add: uploadName_def uniqueResourceName_def)
  apply (simp add: timestamp_of_def randomSuffix_of_def toString_def)
  apply (simp add: resourceName_def sanitizeResourceName_def ascii_toLowerCase_def
      trim_hyphens_def replace_outside_class_def in_class_def hyphen_def substring0_def
      maxNameLength_def js_def)
  done

lemma example_start:
  "batch_start (map fst example_batch) (Some (Inr s1_store)) initial_state = (example_s0, Completed)"
  by (simp add: batch_start_def Let_def bad_doc_def notes_doc_def
      photo_image_def example_s0_def initial_state_def add_message_def send_def settle_def
      image_png not_image_pdf not_image_txt toString_def)
     (simp add: js_def)

lemma example_try_bad:
  "try_file ascii_toLowerCase 0 (fst bad_doc) (snd bad_doc) example_s0 = (example_t1, Threw bad_error)"
  by (simp add: try_file_def Let_def bad_doc_def bad_name send_def settle_def example_t1_def
      example_s0_def initial_state_def)

lemma bad_error_message:
  "errorMessage bad_error = Inr (Some (js ''404: Requested entity was not found.''))"
  by (simp add: bad_error_def)

lemma example_catch_bad:
  "catch_file (fst bad_doc) bad_error example_t1 = (example_c1, Completed)"
  by (simp add: catch_file_handled [OF bad_error_message] bad_message bad_doc_def set_entry_def
      example_c1_def example_t1_def example_s0_def initial_state_def)

lemma example_bad:
  "process_file ascii_toLowerCase 0 (fst bad_doc) (snd bad_doc) example_s0 = (example_s1, Completed)"
  by (simp add: process_file_def example_try_bad example_catch_bad finish_def example_s1_def)

lemma example_notes:
  "process_file ascii_toLowerCase 1 (fst notes_doc) (snd notes_doc) example_s1 = (example_s2, Completed)"
  by (simp add: process_file_def try_file_def import_document_def ensure_store_def has_name_def
      Let_def notes_doc_def notes_name not_image_pdf send_def settle_def finish_def set_entry_def
      s1_store_def example_s2_def example_s1_def example_c1_def example_t1_def example_s0_def
      initial_state_def)
     (simp add: js_def)

lemma example_photo:
  "process_file ascii_toLowerCase 2 (fst photo_image) (snd photo_image) example_s2 = (example_s3, Completed)"
  by (simp add: process_file_def try_file_def Let_def photo_image_def photo_name image_png
      send_def settle_def finish_def set_entry_def example_s3_def example_s2_def example_s1_def
      example_c1_def example_t1_def example_s0_def initial_state_def)

lemma example_pre:
  "process_files ascii_toLowerCase 0 [bad_doc, notes_doc] example_s0 = (example_s2, Completed)"
  using example_bad example_notes by (simp add: process_files_Cons)

lemma example_rest:
  "process_files ascii_toLowerCase 1 [notes_doc, photo_image] example_s1 = (example_s3, Completed)"
  using example_notes example_photo by (simp add: process_files_Cons numeral_2_eq_2)

lemma example_loop:
  "process_files ascii_toLowerCase 0 example_batch example_s0 = (example_s3, Completed)"
  using example_bad example_rest by (simp add: process_files_Cons)

lemma example_events:
  "events example_s3 =
     [Sent CreateStore, Settled CreateStore, Sent bad_upload, Settled bad_upload, Finished 0,
      Sent notes_upload, Settled notes_upload, Sent (ImportFile 1), Settled (ImportFile 1),
      Sent (GetOperation 1), Settled (GetOperation 1),
      Sent (GetOperation 1), Settled (GetOperation 1), Finished 1,
      Sent photo_upload, Settled photo_upload, Finished 2]"
  by (simp add: example_s3_def example_s2_def example_s1_def example_c1_def example_t1_def)

lemma example_handle:
  "handleFileSelect ascii_toLowerCase a example_batch (Some (Inr s1_store)) initial_state =
     ((report_failures a (report_successes (fileSearchStore initial_state) example_s3))
        \<lparr>isUploading := False\<rparr>, Completed)"
  by (rule handleFileSelect_Completed [OF example_start _ example_loop])
    (simp add:)



lemma example_final_events:
  "events (fst (handleFileSelect ascii_toLowerCase a example_batch (Some (Inr s1_store)) initial_state)) =
     [Sent CreateStore, Settled CreateStore, Sent bad_upload, Settled bad_upload, Finished 0,
      Sent notes_upload, Settled notes_upload, Sent (ImportFile 1), Settled (ImportFile 1),
      Sent (GetOperation 1), Settled (GetOperation 1),
      Sent (GetOperation 1), Settled (GetOperation 1), Finished 1,
      Sent photo_upload, Settled photo_upload, Finished 2]"
  by (simp add: example_handle events_report_failures events_report_successes example_events)

section \<open>The batch that is cut short, step by step\<close>

lemma aborted_start:
  "batch_start (map fst aborted_batch) None initial_state = (aborted_s0, Completed)"
  by (simp add: batch_start_def Let_def broken_image_def photo_image_def aborted_s0_def
      initial_state_def add_message_def image_png toString_def)
     (simp add: js_def)

lemma aborted_try:
  "try_file ascii_toLowerCase 0 (fst broken_image) (snd broken_image) aborted_s0 =
     (aborted_t1, Threw rejected_undefined)"
  by (simp add: try_file_def Let_def broken_image_def broken_name send_def settle_def
      aborted_t1_def aborted_s0_def initial_state_def)

lemma aborted_catch:
  "catch_file (fst broken_image) rejected_undefined aborted_t1 =
     (aborted_c1, Threw includes_TypeError)"
  by (simp add: catch_file_def Let_def rejected_undefined_def aborted_c1_def aborted_t1_def
      aborted_s0_def initial_state_def)

lemma aborted_file:
  "process_file ascii_toLowerCase 0 (fst broken_image) (snd broken_image) aborted_s0 =
     (aborted_c1, Threw includes_TypeError)"
  by (simp add: process_file_def aborted_try aborted_catch)

lemma aborted_loop:
  "process_files ascii_toLowerCase 0 aborted_batch aborted_s0 = (aborted_c1, Threw includes_TypeError)"
  using aborted_file by (simp add: process_files_Cons)

lemma aborted_text:
  "js ''process failed: '' @ thrown_text includes_TypeError =
     js ''process failed: TypeError: Cannot read properties of undefined (reading 'includes')''"
  by (simp add: includes_TypeError_def js_def)

lemma aborted_map:
  "foldl fail_if_uploading (uploadedFiles aborted_c1) (map fst aborted_batch) =
     [js ''broken.png'' \<mapsto> entry (js ''broken.png'') Failed,
      js ''photo.png'' \<mapsto> entry (js ''photo.png'') Failed]"
  apply (rule ext)
  apply (simp only: foldl_fail_if_uploading)
  apply (simp add: aborted_c1_def aborted_t1_def aborted_s0_def broken_image_def photo_image_def
      entry_def)
  done

lemma aborted_handle:
  "handleFileSelect ascii_toLowerCase a aborted_batch None initial_state = (aborted_final, Completed)"
proof -
  have "batch_catch (map fst aborted_batch) includes_TypeError aborted_c1 =
      aborted_final\<lparr>isUploading := True\<rparr>"
    unfolding batch_catch_def aborted_map aborted_text add_message_def
    by (simp add: aborted_final_def aborted_c1_def aborted_t1_def aborted_s0_def initial_state_def)
  with handleFileSelect_Threw [OF aborted_start _ aborted_loop, of a] show ?thesis
    by (simp add: aborted_final_def)
qed

theorem uploads_strictly_sequential_witness:
  "example_batch \<noteq> [] \<and>
   events (fst (handleFileSelect ascii_toLowerCase True example_batch (Some (Inr s1_store))
      initial_state)) =
     [Sent CreateStore, Settled CreateStore, Sent bad_upload, Settled bad_upload, Finished 0,
      Sent notes_upload, Settled notes_upload, Sent (ImportFile 1), Settled (ImportFile 1),
      Sent (GetOperation 1), Settled (GetOperation 1),
      Sent (GetOperation 1), Settled (GetOperation 1), Finished 1]
     @ Sent photo_upload # [Settled photo_upload, Finished 2] \<and>
   one_at_a_time
     (events (fst (handleFileSelect ascii_toLowerCase True example_batch (Some (Inr s1_store))
        initial_state))) \<and>
   unsettled
     [Sent CreateStore, Settled CreateStore, Sent bad_upload, Settled bad_upload, Finished 0,
      Sent notes_upload, Settled notes_upload, Sent (ImportFile 1), Settled (ImportFile 1),
      Sent (GetOperation 1), Settled (GetOperation 1),
      Sent (GetOperation 1), Settled (GetOperation 1), Finished 1] = [] \<and>
   Finished 1 \<in> set
     [Sent CreateStore, Settled CreateStore, Sent bad_upload, Settled bad_upload, Finished 0,
      Sent notes_upload, Settled notes_upload, Sent (ImportFile 1), Settled (ImportFile 1),
      Sent (GetOperation 1), Settled (GetOperation 1),
      Sent (GetOperation 1), Settled (GetOperation 1), Finished 1]"
proof -
  let ?before = "[Sent CreateStore, Settled CreateStore, Sent bad_upload, Settled bad_upload,
      Finished 0, Sent notes_upload, Settled notes_upload, Sent (ImportFile 1),
      Settled (ImportFile 1), Sent (GetOperation 1), Settled (GetOperation 1),
      Sent (GetOperation 1), Settled (GetOperation 1), Finished 1]"
  have ne: "example_batch \<noteq> []" by simp
  have split: "events (fst (handleFileSelect ascii_toLowerCase True example_batch
        (Some (Inr s1_store)) initial_state)) =
      ?before @ Sent photo_upload # [Settled photo_upload, Finished 2]"
    by (simp add: example_final_events)
  note t = uploads_strictly_sequential [OF ne, of ascii_toLowerCase True "Some (Inr s1_store)"
      initial_state]
  note r = t [THEN conjunct2, THEN conjunct1, rule_format, OF split]
  from r have u: "unsettled ?before = []" by (rule conjunct1)
  from r [THEN conjunct2, THEN conjunct1] have f: "Finished 1 \<in> set ?before" by simp
  from t have o: "one_at_a_time
     (events (fst (handleFileSelect ascii_toLowerCase True example_batch (Some (Inr s1_store))
        initial_state)))" by (rule conjunct1)
  from ne split o u f show ?thesis by blast
qed

theorem image_skips_import_witness:
  "batch_start (map fst example_batch) (Some (Inr s1_store)) initial_state = (example_s0, Completed) \<and>
   process_files ascii_toLowerCase 0 [bad_doc, notes_doc] example_s0 = (example_s2, Completed) \<and>
   upload_response (snd photo_image) =
     Some (Inr \<lparr>up_name = Some (js ''files/a''), up_uri = Some (js ''https://f/a''),
                 up_mimeType = Some (js ''image/png'')\<rparr>) \<and>
   startsWith (js ''image/png'') (js ''image/'') \<and>
   uploadedFiles (fst (process_file ascii_toLowerCase 2 (fst photo_image) (snd photo_image) example_s2))
     (js ''photo.png'') =
     Some \<lparr>status = Ready, entry_name = js ''photo.png'', uri = Some (js ''https://f/a''),
            mimeType = Some (js ''image/png''), isImage = Some True\<rparr> \<and>
   filter (\<lambda>q. request_file q = Some 2)
     (requests (fst (handleFileSelect ascii_toLowerCase True example_batch (Some (Inr s1_store))
        initial_state))) = [photo_upload] \<and>
   filter (\<lambda>e. event_file e = Some 2)
     (events (fst (handleFileSelect ascii_toLowerCase True example_batch (Some (Inr s1_store))
        initial_state))) = [Sent photo_upload, Settled photo_upload, Finished 2]"
proof -
  let ?up = "\<lparr>up_name = Some (js ''files/a''), up_uri = Some (js ''https://f/a''),
               up_mimeType = Some (js ''image/png'')\<rparr>"
  have h1: "batch_start (map fst ([bad_doc, notes_doc] @ (fst photo_image, snd photo_image) # []))
      (Some (Inr s1_store)) initial_state = (example_s0, Completed)"
    using example_start by simp
  have h3: "upload_response (snd photo_image) = Some (Inr ?up)"
    by (simp add: photo_image_def)
  have h4: "up_mimeType ?up = Some (js ''image/png'')"
    by simp
  note t = image_skips_import [OF h1 example_pre h3 h4 image_png, of True, THEN conjunct2]
  have a: "file_name (fst photo_image) = js ''photo.png''"
    by (simp add: photo_image_def)
  have nm: "uploadName ascii_toLowerCase (file_name (fst photo_image)) (clock (snd photo_image))
      (random (snd photo_image)) = js ''photo-png-1762160003500-50000''"
    by (simp add: photo_image_def photo_name)
  from t [THEN conjunct1]
  have g1: "uploadedFiles (fst (process_file ascii_toLowerCase 2 (fst photo_image) (snd photo_image)
          example_s2)) (js ''photo.png'') =
      Some \<lparr>status = Ready, entry_name = js ''photo.png'', uri = Some (js ''https://f/a''),
             mimeType = Some (js ''image/png''), isImage = Some True\<rparr>"
    by (simp add: a numeral_2_eq_2)
  from t [THEN conjunct2, THEN conjunct1]
  have g2: "filter (\<lambda>q. request_file q = Some 2)
      (requests (fst (handleFileSelect ascii_toLowerCase True example_batch (Some (Inr s1_store))
         initial_state))) = [photo_upload]"
    by (simp add: nm numeral_2_eq_2)
  from t [THEN conjunct2, THEN conjunct2]
  have g3: "filter (\<lambda>e. event_file e = Some 2)
      (events (fst (handleFileSelect ascii_toLowerCase True example_batch (Some (Inr s1_store))
         initial_state))) = [Sent photo_upload, Settled photo_upload, Finished 2]"
    by (simp add: nm numeral_2_eq_2)
  from example_start example_pre h3 image_png g1 g2 g3 show ?thesis by blast
qed



lemma mixed_lookup:
  "uploadedFiles mixed_state (js ''a'') = Some (entry (js ''a'') Uploading) \<and>
   uploadedFiles mixed_state (js ''b'') = Some (entry (js ''b'') Indexing)"
  by (simp add: mixed_state_def js_def)

lemma mixed_names: "js ''a'' \<in> file_name ` set mixed_files"
  by (simp add: mixed_files_def)

lemma entry_status: "status (entry n s) = s"
  by (simp add: entry_def)

theorem batch_catch_only_uploading_witness:
  "uploadedFiles mixed_state (js ''b'') = Some (entry (js ''b'') Indexing) \<and>
   status (entry (js ''b'') Indexing) \<noteq> Uploading \<and>
   uploadedFiles (batch_catch mixed_files bad_error mixed_state) (js ''b'') =
     Some (entry (js ''b'') Indexing) \<and>
   uploadedFiles (batch_catch mixed_files bad_error mixed_state) (js ''a'') =
     Some (entry (js ''a'') Failed)"
proof -
  note b = batch_catch_only_uploading [of mixed_files bad_error mixed_state "js ''b''"
      "entry (js ''b'') Indexing", THEN conjunct2, THEN conjunct1]
  note a = batch_catch_only_uploading [of mixed_files bad_error mixed_state "js ''a''"
      "entry (js ''a'') Uploading", THEN conjunct1]
  from b have "uploadedFiles (batch_catch mixed_files bad_error mixed_state) (js ''b'') =
      Some (entry (js ''b'') Indexing)"
    by (simp add: mixed_lookup entry_status)
  moreover from a have "uploadedFiles (batch_catch mixed_files bad_error mixed_state) (js ''a'') =
      Some (entry (js ''a'') Failed)"
    by (simp add: mixed_lookup entry_status mixed_names)
  ultimately show ?thesis
    by (simp add: mixed_lookup entry_status)
qed

section \<open>A failure that is not contained\<close>

lemma aborted_final_fields:
  "uploadedFiles aborted_final (js ''broken.png'') = Some (entry (js ''broken.png'') Failed) \<and>
   uploadedFiles aborted_final (js ''photo.png'') = Some (entry (js ''photo.png'') Failed) \<and>
   failures aborted_final = 1 \<and>
   events aborted_final = [Sent broken_upload, Settled broken_upload] \<and>
   messages aborted_final =
     [js ''uploading 2 file(s)...'',
      js ''process failed: TypeError: Cannot read properties of undefined (reading 'includes')'']"
  by (simp add: aborted_final_def aborted_c1_def aborted_t1_def aborted_s0_def initial_state_def)

text \<open>
  C9. The upload of the first of two images is rejected with \<open>undefined\<close>. The
  \<open>try\<close> block throws, the \<open>catch\<close> block of the file counts the failure and then
  throws a \<open>TypeError\<close> itself, before it sets the entry of the file, and the loop is
  left: the second image is never uploaded. The \<open>catch\<close> block of the batch sets both
  entries to \<open>failed\<close> and reports \<open>process failed\<close>; there is no message with the
  number of failures.
\<close>

theorem file_failure_aborts_batch:
  "try_file ascii_toLowerCase 0 (fst broken_image) (snd broken_image) aborted_s0 =
     (aborted_t1, Threw rejected_undefined) \<and>
   process_files ascii_toLowerCase 0 aborted_batch aborted_s0 =
     (aborted_c1, Threw includes_TypeError) \<and>
   uploadedFiles aborted_c1 (js ''broken.png'') = Some (entry (js ''broken.png'') Uploading) \<and>
   handleFileSelect ascii_toLowerCase True aborted_batch None initial_state =
     (aborted_final, Completed) \<and>
   requests aborted_final = [broken_upload] \<and>
   uploadedFiles aborted_final (js ''photo.png'') = Some (entry (js ''photo.png'') Failed) \<and>
   messages aborted_final =
     [js ''uploading 2 file(s)...'',
      js ''process failed: TypeError: Cannot read properties of undefined (reading 'includes')'']"
  using aborted_try aborted_loop aborted_handle [of True] aborted_final_fields
  by (simp add: requests_def)
    (simp add: aborted_c1_def aborted_t1_def aborted_s0_def initial_state_def)

end
